theory Spec2Isabelle
  imports Complex_Main "HOL-Library.Multiset"
begin

section \<open>Grids\<close>

text \<open>
  A grid is a JavaScript array of rows, each row an array of numbers; \<open>0\<close> is the empty
  cell. Rows may have any length: nothing in the engine checks that a grid handed in by a
  caller is square.
\<close>

type_synonym grid = "int list list"

text \<open>
  What can go wrong when the engine runs:
  \<^item> \<open>TypeError\<close>: \<^verbatim>\<open>grid[r][c]\<close> is read where \<^verbatim>\<open>grid[r]\<close> is \<^verbatim>\<open>undefined\<close>;
  \<^item> \<open>FractionalBoxSize\<close>: \<^verbatim>\<open>Math.sqrt(size)\<close> is not an integer, so the box window is
    computed in floating point (outside this model);
  \<^item> \<open>OutsideGrid\<close>: the recursive filler is entered at a position beyond row \<open>size\<close> or
    column \<open>size\<close>, which \<^verbatim>\<open>fillGrid\<close> never does.
\<close>

datatype error = TypeError | FractionalBoxSize | OutsideGrid

text \<open>
  \<^verbatim>\<open>grid[r][c]\<close> for an existing row \<open>r\<close>: \<open>None\<close> is JavaScript's \<^verbatim>\<open>undefined\<close>
  (a column past the end of the row), which is \<^verbatim>\<open>===\<close> to no number.
\<close>

definition cell :: "grid \<Rightarrow> nat \<Rightarrow> nat \<Rightarrow> int option" where
  "cell g r c = (if r < length g \<and> c < length (g ! r) then Some (g ! r ! c) else None)"

text \<open>
  \<^verbatim>\<open>grid[r][c] = v\<close>. The engine only writes to cells it has just read as \<open>0\<close>, so the
  cell exists and the write never extends a row.
\<close>

definition setCell :: "grid \<Rightarrow> nat \<Rightarrow> nat \<Rightarrow> int \<Rightarrow> grid" where
  "setCell g r c v = g[r := (g ! r)[c := v]]"

text \<open>
  The loops \<^verbatim>\<open>if (grid[r][c] === num) return false\<close> of the validity checks: the cells
  are read in the order listed, the scan stops at the first hit, and reading a cell of a
  missing row throws.
\<close>

fun anyCellEquals :: "grid \<Rightarrow> (nat \<times> nat) list \<Rightarrow> int \<Rightarrow> error + bool" where
  "anyCellEquals g [] num = Inr False"
| "anyCellEquals g ((r, c) # ps) num =
     (if length g \<le> r then Inl TypeError
      else if cell g r c = Some num then Inr True
      else anyCellEquals g ps num)"

text \<open>The window \<^verbatim>\<open>for i < h: for j < w: grid[startRow + i][startCol + j]\<close>.\<close>

definition boxCells :: "nat \<Rightarrow> nat \<Rightarrow> nat \<Rightarrow> nat \<Rightarrow> (nat \<times> nat) list" where
  "boxCells startRow startCol h w =
     map (\<lambda>(i, j). (startRow + i, startCol + j)) (List.product [0..<h] [0..<w])"

text \<open>
  \<^verbatim>\<open>Math.sqrt(size)\<close> where it is an integer; \<open>None\<close> where the square root is
  fractional.
\<close>

definition exactSqrt :: "nat \<Rightarrow> nat option" where
  "exactSqrt n = find (\<lambda>b. b * b = n) [0..<Suc n]"

section \<open>The validator on a caller's grid\<close>

definition isValidForGrid :: "grid \<Rightarrow> nat \<Rightarrow> nat \<Rightarrow> int \<Rightarrow> error + bool" where
  "isValidForGrid g row col num =
     (let n = length g in
      case anyCellEquals g (map (\<lambda>x. (row, x)) [0..<n]) num of
        Inl e \<Rightarrow> Inl e
      | Inr inRow \<Rightarrow>
          if inRow then Inr False
          else (case anyCellEquals g (map (\<lambda>x. (x, col)) [0..<n]) num of
            Inl e \<Rightarrow> Inl e
          | Inr inCol \<Rightarrow>
              if inCol then Inr False
              else if n = 6 then
                (case anyCellEquals g (boxCells ((row div 2) * 2) ((col div 3) * 3) 2 3) num of
                   Inl e \<Rightarrow> Inl e
                 | Inr inBox \<Rightarrow> Inr (\<not> inBox))
              else (case exactSqrt n of
                   None \<Rightarrow> Inl FractionalBoxSize
                 | Some boxSize \<Rightarrow>
                     (case anyCellEquals g
                             (boxCells ((row div boxSize) * boxSize) ((col div boxSize) * boxSize)
                                boxSize boxSize) num of
                        Inl e \<Rightarrow> Inl e
                      | Inr inBox \<Rightarrow> Inr (\<not> inBox)))))"

section \<open>The backtracking solver\<close>

text \<open>
  The scan \<^verbatim>\<open>for row < size: for col < size: if (grid[row][col] === 0)\<close> of
  \<^verbatim>\<open>solvePuzzle\<close> and \<^verbatim>\<open>getHint\<close>, in row-major order.
\<close>

definition scanOrder :: "nat \<Rightarrow> (nat \<times> nat) list" where
  "scanOrder n = List.product [0..<n] [0..<n]"

definition isEmptyAt :: "grid \<Rightarrow> nat \<times> nat \<Rightarrow> bool" where
  "isEmptyAt g p = (cell g (fst p) (snd p) = Some 0)"

definition firstEmpty :: "grid \<Rightarrow> (nat \<times> nat) option" where
  "firstEmpty g = find (isEmptyAt g) (scanOrder (length g))"

text \<open>
  \<^verbatim>\<open>solvePuzzle(grid)\<close> returns its boolean together with the grid as the call leaves it.
  \<open>solveCell g row col num\<close> is the loop \<^verbatim>\<open>for (num; num <= size; num++)\<close> at the first
  empty cell, followed by \<^verbatim>\<open>return false\<close>.
\<close>

function (domintros) solvePuzzle :: "grid \<Rightarrow> error + bool \<times> grid"
  and solveCell :: "grid \<Rightarrow> nat \<Rightarrow> nat \<Rightarrow> nat \<Rightarrow> error + bool \<times> grid"
where
  "solvePuzzle g =
     (case firstEmpty g of
        None \<Rightarrow> Inr (True, g)
      | Some p \<Rightarrow> solveCell g (fst p) (snd p) 1)"
| "solveCell g row col num =
     (if length g < num then Inr (False, g)
      else (case isValidForGrid g row col (int num) of
          Inl e \<Rightarrow> Inl e
        | Inr ok \<Rightarrow>
            if ok then
              (case solvePuzzle (setCell g row col (int num)) of
                 Inl e \<Rightarrow> Inl e
               | Inr res \<Rightarrow>
                   if fst res then Inr (True, snd res)
                   else solveCell (setCell (snd res) row col 0) row col (num + 1))
            else solveCell g row col (num + 1)))"
  by pat_completeness auto


text \<open>
  Termination: every nested call of \<^verbatim>\<open>solvePuzzle\<close> runs on a grid with one empty cell
  fewer. The loop continues from the grid the failed nested call leaves behind, so the
  argument needs that a failed call restores its grid; this is shown first, on the
  domain of the function.
\<close>

definition emptyCount :: "grid \<Rightarrow> nat" where
  "emptyCount g = length (filter (isEmptyAt g) (scanOrder (length g)))"

definition solveRank :: "grid + grid \<times> nat \<times> nat \<times> nat \<Rightarrow> nat \<times> nat" where
  "solveRank x = (case x of
      Inl g \<Rightarrow> (2 * emptyCount g, 0)
    | Inr (g, row, col, num) \<Rightarrow>
        (2 * emptyCount (setCell g row col 1) + (if num = 0 then 3 else 1),
         Suc (length g) - num))"

lemma length_setCell [simp]: "length (setCell g r c v) = length g"
  by (simp add: setCell_def)

lemma setCell_setCell [simp]: "setCell (setCell g r c v) r c w = setCell g r c w"
  by (cases "r < length g") (simp_all add: setCell_def list_update_beyond)

lemma cell_setCell:
  "cell (setCell g r c v) r' c' =
     (if r' = r \<and> c' = c \<and> cell g r c \<noteq> None then Some v else cell g r' c')"
  by (auto simp: cell_def setCell_def nth_list_update)

lemma setCell_same: "cell g r c = Some v \<Longrightarrow> setCell g r c v = g"
  by (auto simp: cell_def setCell_def split: if_splits)

lemma distinct_scanOrder [simp]: "distinct (scanOrder n)"
  by (simp add: scanOrder_def distinct_product)

lemma set_scanOrder [simp]: "set (scanOrder n) = {(r, c). r < n \<and> c < n}"
  by (auto simp: scanOrder_def)

lemma filter_count_one_point:
  "distinct xs \<Longrightarrow> (\<And>p. p \<in> set xs \<Longrightarrow> p \<noteq> q \<Longrightarrow> P p = Q p) \<Longrightarrow>
   length (filter P xs) + (if q \<in> set xs \<and> Q q then 1 else 0) =
   length (filter Q xs) + (if q \<in> set xs \<and> P q then 1 else 0)"
proof (induction xs)
  case Nil
  then show ?case by simp
next
  case (Cons x xs)
  then show ?case by (cases "x = q") auto
qed

lemma isEmptyAt_setCell:
  "p \<noteq> (r, c) \<Longrightarrow> isEmptyAt (setCell g r c v) p = isEmptyAt g p"
  by (cases p) (auto simp: isEmptyAt_def cell_setCell)

lemma emptyCount_setCell:
  "emptyCount (setCell g r c v) +
     (if (r, c) \<in> set (scanOrder (length g)) \<and> isEmptyAt g (r, c) then 1 else 0) =
   emptyCount g +
     (if (r, c) \<in> set (scanOrder (length g)) \<and> isEmptyAt (setCell g r c v) (r, c)
      then 1 else 0)"
  unfolding emptyCount_def length_setCell
  by (rule filter_count_one_point) (simp_all add: isEmptyAt_setCell del: set_scanOrder)

lemma firstEmpty_Some:
  "firstEmpty g = Some p \<Longrightarrow> isEmptyAt g p \<and> p \<in> set (scanOrder (length g))"
  by (auto simp: firstEmpty_def find_Some_iff in_set_conv_nth simp del: set_scanOrder)

lemma firstEmpty_None_iff:
  "firstEmpty g = None \<longleftrightarrow> (\<forall>r < length g. \<forall>c < length g. cell g r c \<noteq> Some 0)"
  by (auto simp: firstEmpty_def find_None_iff isEmptyAt_def)

lemma solve_restores_dom:
  "solvePuzzle_solveCell_dom (Inl g) \<Longrightarrow> solvePuzzle g = Inr (False, g') \<Longrightarrow> g' = g"
  "solvePuzzle_solveCell_dom (Inr (h, row, col, num)) \<Longrightarrow>
     solveCell h row col num = Inr (False, h') \<Longrightarrow> h' = h \<or> h' = setCell h row col 0"
proof (induction g and h row col num arbitrary: g' and h' rule: solvePuzzle_solveCell.pinduct)
  case (1 g)
  show ?case
  proof (cases "firstEmpty g")
    case None
    with 1 show ?thesis by (simp add: solvePuzzle.psimps)
  next
    case (Some p)
    with 1 have run: "solveCell g (fst p) (snd p) 1 = Inr (False, g')"
      by (simp add: solvePuzzle.psimps)
    from Some have "cell g (fst p) (snd p) = Some 0"
      using firstEmpty_Some isEmptyAt_def by blast
    then have "setCell g (fst p) (snd p) 0 = g" by (rule setCell_same)
    with "1.IH" [OF Some run] show ?thesis by auto
  qed
next
  case (2 g row col num)
  note run = "2.prems" [unfolded solveCell.psimps [OF "2.hyps"]]
  show ?case
  proof (cases "length g < num")
    case True
    with run show ?thesis by simp
  next
    case False
    note inside = False
    from run inside obtain ok where v: "isValidForGrid g row col (int num) = Inr ok"
      by (auto split: sum.splits)
    show ?thesis
    proof (cases ok)
      case False
      with run inside v have "solveCell g row col (num + 1) = Inr (False, h')" by simp
      from "2.IH"(3) [OF inside v False this] show ?thesis .
    next
      case True
      with run inside v obtain res where
        r: "solvePuzzle (setCell g row col (int num)) = Inr res"
        by (auto split: sum.splits)
      with run inside v True have nf: "\<not> fst res"
        and rest: "solveCell (setCell (snd res) row col 0) row col (num + 1) = Inr (False, h')"
        by (auto split: if_splits)
      from r nf have "solvePuzzle (setCell g row col (int num)) = Inr (False, snd res)"
        by (cases res) simp
      from "2.IH"(1) [OF inside v True this]
      have "snd res = setCell g row col (int num)" .
      with "2.IH"(2) [OF inside v True r nf rest] show ?thesis by simp
    qed
  qed
qed

termination solvePuzzle
proof (relation "inv_image (less_than <*lex*> less_than) solveRank", goal_cases)
  case 1
  show ?case by (intro wf_inv_image wf_lex_prod wf_less_than)
next
  case (2 g p)
  from firstEmpty_Some [OF 2] have e: "isEmptyAt g (fst p, snd p)"
    and m: "(fst p, snd p) \<in> set (scanOrder (length g))"
    by simp_all
  have "\<not> isEmptyAt (setCell g (fst p) (snd p) 1) (fst p, snd p)"
    by (simp add: isEmptyAt_def cell_setCell)
  with emptyCount_setCell [of g "fst p" "snd p" 1] e m
  have "emptyCount g = Suc (emptyCount (setCell g (fst p) (snd p) 1))" by simp
  then show ?case by (simp add: solveRank_def)
next
  case (3 g row col num b)
  have "emptyCount (setCell g row col (int num))
          \<le> emptyCount (setCell g row col 1) + (if num = 0 then 1 else 0)"
    using emptyCount_setCell [of "setCell g row col 1" row col "int num"]
    by (auto simp: isEmptyAt_def cell_setCell split: if_splits)
  then show ?case by (auto simp: solveRank_def split: if_splits)
next
  case (4 g row col num b ba)
  from 4 have "solvePuzzle (setCell g row col (int num)) = Inr (False, snd ba)"
    by (cases ba) simp
  from solve_restores_dom(1) [OF 4(6) this] have "snd ba = setCell g row col (int num)" .
  with 4(1) show ?case by (auto simp: solveRank_def)
next
  case (5 g row col num b)
  then show ?case by (auto simp: solveRank_def)
qed

lemma solve_total:
  "solvePuzzle_solveCell_dom (Inl g)"
  "solvePuzzle_solveCell_dom (Inr (h, row, col, num))"
  by (induction g and h row col num rule: solvePuzzle_solveCell.induct)
     (auto intro: solvePuzzle_solveCell.domintros)

lemmas solve_restores =
  solve_restores_dom(1) [OF solve_total(1)] solve_restores_dom(2) [OF solve_total(2)]

section \<open>The host: clock and random source\<close>

text \<open>
  \<^verbatim>\<open>Date.now()\<close> and \<^verbatim>\<open>Math.random()\<close> are inputs from the host. The world records
  what the host will answer: \<open>clock w k\<close> is the value of the \<open>k\<close>-th call of
  \<^verbatim>\<open>Date.now()\<close> in milliseconds, \<open>random w k\<close> decides the \<open>k\<close>-th call of
  \<^verbatim>\<open>Math.random()\<close>; \<open>ticks\<close> and \<open>draws\<close> count the calls made so far. Nothing is
  assumed about either sequence (the clock need not be monotone).
\<close>

record world =
  clock :: "nat \<Rightarrow> int"
  ticks :: nat
  random :: "nat \<Rightarrow> nat"
  draws :: nat

definition dateNow :: "world \<Rightarrow> int \<times> world" where
  "dateNow w = (clock w (ticks w), w\<lparr>ticks := Suc (ticks w)\<rparr>)"

text \<open>
  \<^verbatim>\<open>Math.floor(Math.random() * k)\<close> for an integer \<open>k > 0\<close>: some index below \<open>k\<close>,
  every one of them possible.
\<close>

definition randomBelow :: "nat \<Rightarrow> world \<Rightarrow> nat \<times> world" where
  "randomBelow k w = (random w (draws w) mod k, w\<lparr>draws := Suc (draws w)\<rparr>)"

text \<open>
  \<^verbatim>\<open>shuffleArray\<close>: the loop \<^verbatim>\<open>for (i = length - 1; i > 0; i--)\<close> swaps entry \<open>i\<close> with
  a random entry \<open>j \<le> i\<close> of a copy of the array.
\<close>

fun shuffleLoop :: "nat \<Rightarrow> 'a list \<Rightarrow> world \<Rightarrow> 'a list \<times> world" where
  "shuffleLoop 0 shuffled w = (shuffled, w)"
| "shuffleLoop (Suc i) shuffled w =
     (case randomBelow (Suc i + 1) w of
        (j, w') \<Rightarrow> shuffleLoop i (shuffled[Suc i := shuffled ! j, j := shuffled ! Suc i]) w')"

definition shuffleArray :: "'a list \<Rightarrow> world \<Rightarrow> 'a list \<times> world" where
  "shuffleArray array w = shuffleLoop (length array - 1) array w"

section \<open>The generator\<close>

record generator =
  this_size :: nat
  this_boxSize :: nat
  this_grid :: grid
  this_solution :: grid

definition emptyGrid :: "nat \<Rightarrow> grid" where
  "emptyGrid n = replicate n (replicate n 0)"

definition constructor :: generator where
  "constructor =
     \<lparr>this_size = 9, this_boxSize = 3, this_grid = emptyGrid 9, this_solution = emptyGrid 9\<rparr>"

definition setSize :: "nat \<Rightarrow> generator \<Rightarrow> error + generator" where
  "setSize n this =
     (case (if n = 4 then Some 2 else if n = 6 then Some 2 else if n = 9 then Some 3
            else exactSqrt n) of
        None \<Rightarrow> Inl FractionalBoxSize
      | Some b \<Rightarrow>
          Inr (this\<lparr>this_size := n, this_boxSize := b,
                     this_grid := emptyGrid n, this_solution := emptyGrid n\<rparr>))"

text \<open>
  \<^verbatim>\<open>isValid(row, col, num)\<close> reads \<^verbatim>\<open>this.size\<close>, \<^verbatim>\<open>this.boxSize\<close> and
  \<^verbatim>\<open>this.grid\<close>, here its first three arguments.
\<close>

definition isValid :: "nat \<Rightarrow> nat \<Rightarrow> grid \<Rightarrow> nat \<Rightarrow> nat \<Rightarrow> int \<Rightarrow> error + bool" where
  "isValid n boxSize g row col num =
     (case anyCellEquals g (map (\<lambda>x. (row, x)) [0..<n]) num of
        Inl e \<Rightarrow> Inl e
      | Inr inRow \<Rightarrow>
          if inRow then Inr False
          else (case anyCellEquals g (map (\<lambda>x. (x, col)) [0..<n]) num of
            Inl e \<Rightarrow> Inl e
          | Inr inCol \<Rightarrow>
              if inCol then Inr False
              else (case anyCellEquals g
                      (if n = 6 then boxCells ((row div 2) * 2) ((col div 3) * 3) 2 3
                       else boxCells ((row div boxSize) * boxSize) ((col div boxSize) * boxSize)
                              boxSize boxSize) num of
                 Inl e \<Rightarrow> Inl e
               | Inr inBox \<Rightarrow> Inr (\<not> inBox))))"

text \<open>
  \<^verbatim>\<open>fillGridRecursive(row, col, startTime, timeout)\<close> on the grid and the world;
  \<open>tryNumbers\<close> is its loop \<^verbatim>\<open>for (let num of numbers)\<close> followed by
  \<^verbatim>\<open>return false\<close>. \<^verbatim>\<open>fillGrid\<close> enters at \<open>(0, 0)\<close> and every step keeps
  \<open>row \<le> size\<close> and \<open>col \<le> size\<close>; positions beyond are reported as \<open>OutsideGrid\<close>.
  Reading \<^verbatim>\<open>this.grid[row][col]\<close> in a row that the grid does not have throws.
\<close>

function fillGridRecursive ::
    "nat \<Rightarrow> nat \<Rightarrow> nat \<Rightarrow> nat \<Rightarrow> int \<Rightarrow> int \<Rightarrow> grid \<times> world \<Rightarrow> error + bool \<times> grid \<times> world"
  and tryNumbers ::
    "nat \<Rightarrow> nat \<Rightarrow> nat \<Rightarrow> nat \<Rightarrow> int \<Rightarrow> int \<Rightarrow> int list \<Rightarrow> grid \<times> world
       \<Rightarrow> error + bool \<times> grid \<times> world"
where
  "fillGridRecursive n boxSize row col startTime timeout (g, w) =
     (case dateNow w of (now, w1) \<Rightarrow>
        if now - startTime > timeout then Inr (False, g, w1)
        else if n < row \<or> n < col then Inl OutsideGrid
        else if row = n then Inr (True, g, w1)
        else if col = n then fillGridRecursive n boxSize (row + 1) 0 startTime timeout (g, w1)
        else if length g \<le> row then Inl TypeError
        else if cell g row col \<noteq> Some 0
          then fillGridRecursive n boxSize row (col + 1) startTime timeout (g, w1)
        else (case shuffleArray (map (\<lambda>i. int i + 1) [0..<n]) w1 of
               (numbers, w2) \<Rightarrow>
                 tryNumbers n boxSize row col startTime timeout numbers (g, w2)))"
| "tryNumbers n boxSize row col startTime timeout [] (g, w) = Inr (False, g, w)"
| "tryNumbers n boxSize row col startTime timeout (num # rest) (g, w) =
     (case isValid n boxSize g row col num of
        Inl e \<Rightarrow> Inl e
      | Inr ok \<Rightarrow>
          if ok then
            (case fillGridRecursive n boxSize row (col + 1) startTime timeout
                    (setCell g row col num, w) of
               Inl e \<Rightarrow> Inl e
             | Inr res \<Rightarrow>
                 if fst res then Inr res
                 else tryNumbers n boxSize row col startTime timeout rest
                        (setCell (fst (snd res)) row col 0, snd (snd res)))
          else tryNumbers n boxSize row col startTime timeout rest (g, w))"
  by pat_completeness auto


text \<open>
  Termination: the position \<open>(row, col)\<close> moves forward in row-major order, and the loop
  shortens its list of candidates.
\<close>

definition fillPos :: "nat \<Rightarrow> nat \<Rightarrow> nat \<Rightarrow> nat" where
  "fillPos n row col =
     (if row \<le> n \<and> col \<le> n then 1 + (n - row) * (n + 1) + (n - col) else 0)"

definition fillRank ::
  "nat \<times> nat \<times> nat \<times> nat \<times> int \<times> int \<times> grid \<times> world +
   nat \<times> nat \<times> nat \<times> nat \<times> int \<times> int \<times> int list \<times> grid \<times> world \<Rightarrow> nat \<times> nat" where
  "fillRank x = (case x of
      Inl (n, boxSize, row, col, rest) \<Rightarrow> (2 * fillPos n row col, 0)
    | Inr (n, boxSize, row, col, startTime, timeout, numbers, rest) \<Rightarrow>
        (2 * fillPos n row (col + 1) + 1, length numbers))"

lemma fillPos_next_col:
  "\<not> n < row \<Longrightarrow> row \<noteq> n \<Longrightarrow> \<not> n < col \<Longrightarrow> col \<noteq> n \<Longrightarrow>
   fillPos n row (Suc col) < fillPos n row col"
  by (simp add: fillPos_def)

lemma fillPos_next_row:
  assumes "\<not> n < row" "row \<noteq> n"
  shows "fillPos n (Suc row) 0 < fillPos n row n"
proof -
  from assms obtain d where "n - row = Suc d" "n - Suc row = d"
    by (metis Suc_diff_Suc linorder_neqE_nat)
  with assms show ?thesis by (simp add: fillPos_def)
qed

lemma fillPos_try:
  "\<not> n < row \<Longrightarrow> row \<noteq> n \<Longrightarrow> \<not> n < col \<Longrightarrow> col \<noteq> n \<Longrightarrow>
   Suc (2 * fillPos n row (Suc col)) < 2 * fillPos n row col"
  using fillPos_next_col [of n row col] by simp

termination fillGridRecursive
proof (relation "inv_image (less_than <*lex*> less_than) fillRank", goal_cases)
  case 1
  show ?case by (intro wf_inv_image wf_lex_prod wf_less_than)
qed (auto simp: fillRank_def intro!: fillPos_next_row fillPos_next_col fillPos_try)

text \<open>\<^verbatim>\<open>fillGrid()\<close>: one attempt, with its budget of 5000 ms.\<close>

definition fillGrid :: "nat \<Rightarrow> nat \<Rightarrow> grid \<times> world \<Rightarrow> error + bool \<times> grid \<times> world" where
  "fillGrid n boxSize gw =
     (case dateNow (snd gw) of
        (startTime, w1) \<Rightarrow> fillGridRecursive n boxSize 0 0 startTime 5000 (fst gw, w1))"

text \<open>
  \<^verbatim>\<open>createFallbackGrid()\<close> overwrites every cell of \<^verbatim>\<open>this.grid\<close> with the shift
  pattern; \<^verbatim>\<open>this.grid\<close> is the \<open>size\<close> by \<open>size\<close> array left by the last attempt.
\<close>

definition fallbackValue :: "nat \<Rightarrow> nat \<Rightarrow> nat \<Rightarrow> nat \<Rightarrow> int" where
  "fallbackValue n boxSize row col = int ((row * boxSize + row div boxSize + col) mod n) + 1"

definition createFallbackGrid :: "generator \<Rightarrow> generator" where
  "createFallbackGrid this =
     this\<lparr>this_grid :=
       foldl (\<lambda>g p. setCell g (fst p) (snd p)
                      (fallbackValue (this_size this) (this_boxSize this) (fst p) (snd p)))
         (this_grid this) (scanOrder (this_size this))\<rparr>"

text \<open>
  \<^verbatim>\<open>generateComplete()\<close>: the loop \<^verbatim>\<open>while (attempts < maxAttempts)\<close> with
  \<^verbatim>\<open>maxAttempts = 10\<close>, then the fallback. The messages written to the console are left
  out. The returned array is \<^verbatim>\<open>this.grid\<close> itself.
\<close>

function generateAttempts :: "nat \<Rightarrow> generator \<times> world \<Rightarrow> error + generator \<times> world" where
  "generateAttempts attempts (this, w) =
     (if attempts < 10 then
        (case fillGrid (this_size this) (this_boxSize this) (emptyGrid (this_size this), w) of
           Inl e \<Rightarrow> Inl e
         | Inr res \<Rightarrow>
             if fst res
             then Inr (this\<lparr>this_grid := fst (snd res), this_solution := fst (snd res)\<rparr>,
                       snd (snd res))
             else generateAttempts (attempts + 1)
                    (this\<lparr>this_grid := fst (snd res)\<rparr>, snd (snd res)))
      else (case createFallbackGrid this of
              this1 \<Rightarrow> Inr (this1\<lparr>this_solution := this_grid this1\<rparr>, w)))"
  by pat_completeness auto
termination
  by (relation "measure (\<lambda>(attempts, s). 10 - attempts)") auto

definition generateComplete :: "generator \<times> world \<Rightarrow> error + generator \<times> world" where
  "generateComplete s = generateAttempts 0 s"

text \<open>
  \<^verbatim>\<open>generatePuzzle(difficulty, size)\<close>. The removal fractions are the decimal literals
  of the source; \<^verbatim>\<open>Math.floor(totalCells * percentage)\<close> is computed here on the exact
  fractions, which gives the floating-point result for the 16, 36 and 81 cells of the
  supported sizes (no product is close to an integer from below).
\<close>

definition removalPercentage :: "int \<Rightarrow> (nat \<times> nat) option" where
  "removalPercentage difficulty =
     (if difficulty = 1 then Some (30, 100)
      else if difficulty = 2 then Some (40, 100)
      else if difficulty = 3 then Some (50, 100)
      else if difficulty = 4 then Some (60, 100)
      else if difficulty = 5 then Some (65, 100)
      else None)"

definition toRemove :: "int \<Rightarrow> nat \<Rightarrow> nat" where
  "toRemove difficulty totalCells =
     (case (case removalPercentage difficulty of None \<Rightarrow> (60, 100) | Some q \<Rightarrow> q) of
        (num, den) \<Rightarrow> (totalCells * num) div den)"

record puzzlePair =
  pair_puzzle :: grid
  pair_solution :: grid

definition removeCells :: "grid \<Rightarrow> (nat \<times> nat) list \<Rightarrow> grid" where
  "removeCells puzzle positions = foldl (\<lambda>g p. setCell g (fst p) (snd p) 0) puzzle positions"

definition generatePuzzle ::
  "int \<Rightarrow> nat \<Rightarrow> generator \<times> world \<Rightarrow> error + puzzlePair \<times> generator \<times> world" where
  "generatePuzzle difficulty n s =
     (case setSize n (fst s) of
        Inl e \<Rightarrow> Inl e
      | Inr this1 \<Rightarrow>
          (case generateComplete (this1, snd s) of
             Inl e \<Rightarrow> Inl e
           | Inr completed \<Rightarrow>
               (case shuffleArray (scanOrder n) (snd completed) of
                  (shuffledPositions, w3) \<Rightarrow>
                    Inr (\<lparr>pair_puzzle =
                            removeCells (this_grid (fst completed))
                              (take (toRemove difficulty (n * n)) shuffledPositions),
                          pair_solution = this_solution (fst completed)\<rparr>,
                         fst completed, w3))))"

section \<open>Hints\<close>

record hint =
  hint_row :: nat
  hint_col :: nat
  hint_value :: "int option"

text \<open>
  \<^verbatim>\<open>getHint(currentGrid, solution)\<close> returns the hint (\<open>None\<close> is \<^verbatim>\<open>null\<close>) together
  with both arrays as the call leaves them. \<open>hint_value\<close> is \<^verbatim>\<open>solution[row][col]\<close>,
  \<open>None\<close> where that is \<^verbatim>\<open>undefined\<close>.
\<close>

definition getHint ::
  "grid \<Rightarrow> grid \<Rightarrow> world \<Rightarrow> error + hint option \<times> (grid \<times> grid) \<times> world" where
  "getHint currentGrid solution w =
     (case filter (isEmptyAt currentGrid) (scanOrder (length currentGrid)) of
        [] \<Rightarrow> Inr (None, (currentGrid, solution), w)
      | p # ps \<Rightarrow>
          (case randomBelow (length (p # ps)) w of
             (randomIndex, w') \<Rightarrow>
               (case (p # ps) ! randomIndex of
                  (row, col) \<Rightarrow>
                    if length solution \<le> row then Inl TypeError
                    else Inr (Some \<lparr>hint_row = row, hint_col = col,
                                     hint_value = cell solution row col\<rparr>,
                              (currentGrid, solution), w'))))"

section \<open>The Sudoku invariant\<close>

text \<open>
  The box geometry of a size: boxes of 2 rows by 3 columns for size 6, square boxes of
  side \<open>\<surd>n\<close> for a perfect square, none otherwise.
\<close>

definition boxShape :: "nat \<Rightarrow> (nat \<times> nat) option" where
  "boxShape n = (if n = 6 then Some (2, 3) else map_option (\<lambda>b. (b, b)) (exactSqrt n))"

definition rowUnits :: "nat \<Rightarrow> (nat \<times> nat) list list" where
  "rowUnits n = map (\<lambda>r. map (\<lambda>c. (r, c)) [0..<n]) [0..<n]"

definition colUnits :: "nat \<Rightarrow> (nat \<times> nat) list list" where
  "colUnits n = map (\<lambda>c. map (\<lambda>r. (r, c)) [0..<n]) [0..<n]"

definition boxUnits :: "nat \<Rightarrow> nat \<Rightarrow> nat \<Rightarrow> (nat \<times> nat) list list" where
  "boxUnits n h w =
     map (\<lambda>(bi, bj). boxCells (bi * h) (bj * w) h w) (List.product [0..<n div h] [0..<n div w])"

text \<open>A row, column or box contains each of the values \<open>1..n\<close> exactly once.\<close>

definition eachOnce :: "nat \<Rightarrow> grid \<Rightarrow> (nat \<times> nat) list \<Rightarrow> bool" where
  "eachOnce n g unit =
     (\<forall>v \<in> set [1..int n]. count_list (map (\<lambda>p. cell g (fst p) (snd p)) unit) (Some v) = 1)"

text \<open>
  A Solution: an \<open>n \<times> n\<close> grid in which every row, every column and every box contains
  each of \<open>1..n\<close> exactly once (so that no cell is empty).
\<close>

definition validSolution :: "nat \<Rightarrow> grid \<Rightarrow> bool" where
  "validSolution n g =
     (length g = n \<and> (\<forall>row \<in> set g. length row = n) \<and>
      (case boxShape n of
         None \<Rightarrow> False
       | Some (h, w) \<Rightarrow>
           (\<forall>unit \<in> set (rowUnits n @ colUnits n @ boxUnits n h w). eachOnce n g unit)))"


section \<open>Positions, units and partial grids\<close>

text \<open>The recursive equations are unfolded by hand, one call at a time.\<close>

declare solvePuzzle.simps [simp del] solveCell.simps [simp del]
  fillGridRecursive.simps [simp del] generateAttempts.simps [simp del]

definition cellAt :: "grid \<Rightarrow> nat \<times> nat \<Rightarrow> int option" where
  "cellAt g p = cell g (fst p) (snd p)"

definition inGrid :: "nat \<Rightarrow> nat \<times> nat \<Rightarrow> bool" where
  "inGrid n p = (fst p < n \<and> snd p < n)"

definition square :: "nat \<Rightarrow> grid \<Rightarrow> bool" where
  "square n g = (length g = n \<and> (\<forall>row \<in> set g. length row = n))"

definition boxAt :: "nat \<Rightarrow> nat \<Rightarrow> nat \<Rightarrow> nat \<Rightarrow> (nat \<times> nat) list" where
  "boxAt h w row col = boxCells ((row div h) * h) ((col div w) * w) h w"

definition peers :: "nat \<Rightarrow> nat \<Rightarrow> nat \<Rightarrow> nat \<Rightarrow> nat \<Rightarrow> (nat \<times> nat) list" where
  "peers n h w row col =
     map (\<lambda>x. (row, x)) [0..<n] @ map (\<lambda>x. (x, col)) [0..<n] @ boxAt h w row col"

definition sameUnit :: "nat \<Rightarrow> nat \<Rightarrow> nat \<times> nat \<Rightarrow> nat \<times> nat \<Rightarrow> bool" where
  "sameUnit h w p q =
     (fst p = fst q \<or> snd p = snd q \<or>
      (fst p div h = fst q div h \<and> snd p div w = snd q div w))"

lemma anyCellEquals_append:
  "anyCellEquals g (ps @ qs) num =
     (case anyCellEquals g ps num of
        Inl e \<Rightarrow> Inl e
      | Inr found \<Rightarrow> if found then Inr True else anyCellEquals g qs num)"
  by (induction g ps num rule: anyCellEquals.induct) auto

lemma anyCellEquals_inside:
  "\<forall>p \<in> set ps. fst p < length g \<Longrightarrow>
   anyCellEquals g ps num = Inr (\<exists>p \<in> set ps. cellAt g p = Some num)"
  by (induction g ps num rule: anyCellEquals.induct) (auto simp: cellAt_def)

lemma set_boxCells:
  "set (boxCells a b h w) = {(r, c). a \<le> r \<and> r < a + h \<and> b \<le> c \<and> c < b + w}"
proof -
  have "\<And>r c. a \<le> r \<Longrightarrow> r < a + h \<Longrightarrow> b \<le> c \<Longrightarrow> c < b + w \<Longrightarrow>
      (r, c) \<in> (\<lambda>(i, j). (a + i, b + j)) ` ({0..<h} \<times> {0..<w})"
  proof -
    fix r c assume "a \<le> r" "r < a + h" "b \<le> c" "c < b + w"
    then have "(r - a, c - b) \<in> {0..<h} \<times> {0..<w}" "(r, c) = (a + (r - a), b + (c - b))"
      by auto
    then show "(r, c) \<in> (\<lambda>(i, j). (a + i, b + j)) ` ({0..<h} \<times> {0..<w})"
      by (metis (no_types, lifting) case_prod_conv image_eqI)
  qed
  then show ?thesis by (auto simp: boxCells_def)
qed

lemma div_block: "0 < h \<Longrightarrow> (a * h \<le> r \<and> r < a * h + h) \<longleftrightarrow> r div h = (a::nat)"
proof
  assume "0 < h" "a * h \<le> r \<and> r < a * h + h"
  then show "r div h = a"
    by (metis add.commute div_nat_eqI mult.commute mult_Suc_right)
next
  assume "0 < h" "r div h = a"
  then show "a * h \<le> r \<and> r < a * h + h"
    by (metis add.commute dividend_less_div_times div_times_less_eq_dividend mult.commute)
qed

lemma in_boxAt:
  "0 < h \<Longrightarrow> 0 < w \<Longrightarrow>
   (r, c) \<in> set (boxAt h w row col) \<longleftrightarrow> r div h = row div h \<and> c div w = col div w"
  unfolding boxAt_def set_boxCells
  using div_block [of h "row div h" r] div_block [of w "col div w" c] by auto

lemma set_boxAt:
  "0 < h \<Longrightarrow> 0 < w \<Longrightarrow>
   set (boxAt h w row col) = {(r, c). r div h = row div h \<and> c div w = col div w}"
  using in_boxAt [of h w _ _ row col] by auto

lemma boxAt_inside:
  assumes "0 < h" "0 < w" "h * w = n" "row < n" "col < n" "p \<in> set (boxAt h w row col)"
  shows "inGrid n p"
proof -
  from assms have d: "fst p div h = row div h" "snd p div w = col div w"
    by (auto simp: set_boxAt)
  have "row div h < w" using assms by (simp add: less_mult_imp_div_less mult.commute)
  with d have "fst p div h < w" by simp
  then have 1: "fst p < n" using assms(1,3)
    by (metis div_less_iff_less_mult mult.commute)
  have "col div w < h" using assms by (simp add: less_mult_imp_div_less)
  with d have "snd p div w < h" by simp
  then have 2: "snd p < n" using assms(2,3)
    by (metis div_less_iff_less_mult)
  from 1 2 show ?thesis by (simp add: inGrid_def)
qed

lemma set_peers:
  assumes "0 < h" "0 < w" "h * w = n" "row < n" "col < n"
  shows "set (peers n h w row col) = {q. inGrid n q \<and> sameUnit h w (row, col) q}"
proof -
  have "\<And>q. q \<in> set (boxAt h w row col) \<Longrightarrow> inGrid n q"
    using boxAt_inside [OF assms] by blast
  moreover have "\<And>q. q \<in> set (boxAt h w row col) \<longleftrightarrow>
      fst q div h = row div h \<and> snd q div w = col div w"
    using assms by (auto simp: set_boxAt)
  ultimately show ?thesis
    using assms by (auto simp: peers_def sameUnit_def inGrid_def)
qed

text \<open>
  A partial grid: square, every value in \<open>0..n\<close>, and no filled cell repeated in its row,
  column or box.
\<close>

definition partialGrid :: "nat \<Rightarrow> nat \<Rightarrow> nat \<Rightarrow> grid \<Rightarrow> bool" where
  "partialGrid n h w g =
     (square n g \<and>
      (\<forall>p. inGrid n p \<longrightarrow> (\<exists>v. cellAt g p = Some v \<and> 0 \<le> v \<and> v \<le> int n)) \<and>
      (\<forall>p q. inGrid n p \<and> inGrid n q \<and> p \<noteq> q \<and> sameUnit h w p q \<and> cellAt g p \<noteq> Some 0
             \<longrightarrow> cellAt g p \<noteq> cellAt g q))"

definition noEmpty :: "nat \<Rightarrow> grid \<Rightarrow> bool" where
  "noEmpty n g = (\<forall>p. inGrid n p \<longrightarrow> cellAt g p \<noteq> Some 0)"

lemma exactSqrt_Some: "exactSqrt n = Some b \<Longrightarrow> b * b = n"
  by (auto simp: exactSqrt_def find_Some_iff)

lemma boxShape_dims:
  assumes "boxShape n = Some (h, w)" "0 < n"
  shows "0 < h" "0 < w" "h * w = n" "n = 6 \<longrightarrow> h = 2 \<and> w = 3"
    "n \<noteq> 6 \<longrightarrow> w = h \<and> exactSqrt n = Some h"
proof -
  have "0 < h \<and> 0 < w \<and> h * w = n \<and> (n = 6 \<longrightarrow> h = 2 \<and> w = 3) \<and>
      (n \<noteq> 6 \<longrightarrow> w = h \<and> exactSqrt n = Some h)"
  proof (cases "n = 6")
    case True
    with assms show ?thesis by (simp add: boxShape_def)
  next
    case False
    with assms have e: "exactSqrt n = Some h" "w = h"
      by (auto simp: boxShape_def)
    from exactSqrt_Some [OF e(1)] assms(2) have "h * h = n" "0 < h"
      by (auto intro: Nat.gr0I)
    with e False show ?thesis by simp
  qed
  then show "0 < h" "0 < w" "h * w = n" "n = 6 \<longrightarrow> h = 2 \<and> w = 3"
    "n \<noteq> 6 \<longrightarrow> w = h \<and> exactSqrt n = Some h" by simp_all
qed

lemma isValid_scan:
  "isValid n b g row col num =
     (case anyCellEquals g (peers n (if n = 6 then 2 else b) (if n = 6 then 3 else b) row col) num of
        Inl e \<Rightarrow> Inl e
      | Inr found \<Rightarrow> Inr (\<not> found))"
  by (cases "n = 6")
     (simp_all add: isValid_def peers_def boxAt_def anyCellEquals_append split: sum.splits)

lemma isValidForGrid_scan:
  "boxShape (length g) = Some (h, w) \<Longrightarrow> 0 < length g \<Longrightarrow>
   isValidForGrid g row col num =
     (case anyCellEquals g (peers (length g) h w row col) num of
        Inl e \<Rightarrow> Inl e
      | Inr found \<Rightarrow> Inr (\<not> found))"
  using boxShape_dims(4,5) [of "length g" h w]
  by (cases "length g = 6")
     (simp_all add: isValidForGrid_def Let_def peers_def boxAt_def anyCellEquals_append
        split: sum.splits)

lemma peers_scan:
  assumes "0 < h" "0 < w" "h * w = n" "row < n" "col < n" "length g = n"
  shows "anyCellEquals g (peers n h w row col) num =
     Inr (\<exists>q. inGrid n q \<and> sameUnit h w (row, col) q \<and> cellAt g q = Some num)"
proof -
  have "\<forall>p \<in> set (peers n h w row col). fst p < length g"
    using set_peers [OF assms(1-5)] assms(6) by (auto simp: inGrid_def)
  from anyCellEquals_inside [OF this] show ?thesis
    using set_peers [OF assms(1-5)] by auto
qed

lemma isValid_iff:
  assumes "boxShape n = Some (h, w)" "0 < n" "n \<noteq> 6 \<longrightarrow> b = h"
    "row < n" "col < n" "length g = n"
  shows "isValid n b g row col num =
     Inr (\<not> (\<exists>q. inGrid n q \<and> sameUnit h w (row, col) q \<and> cellAt g q = Some num))"
proof -
  note d = boxShape_dims [OF assms(1,2)]
  have "(if n = 6 then 2 else b) = h" "(if n = 6 then 3 else b) = w"
    using d assms(3) by auto
  then show ?thesis
    using peers_scan [OF d(1-3) assms(4-6)] by (simp add: isValid_scan)
qed

lemma isValidForGrid_iff:
  assumes "boxShape n = Some (h, w)" "0 < n" "row < n" "col < n" "length g = n"
  shows "isValidForGrid g row col num =
     Inr (\<not> (\<exists>q. inGrid n q \<and> sameUnit h w (row, col) q \<and> cellAt g q = Some num))"
proof -
  note d = boxShape_dims [OF assms(1,2)]
  show ?thesis
    using peers_scan [OF d(1-3) assms(3-5)] isValidForGrid_scan [of g h w row col num] assms
    by simp
qed

lemma partialGrid_square: "partialGrid n h w g \<Longrightarrow> square n g"
  unfolding partialGrid_def by blast

lemma partialGrid_range:
  "partialGrid n h w g \<Longrightarrow> inGrid n p \<Longrightarrow> \<exists>v. cellAt g p = Some v \<and> 0 \<le> v \<and> v \<le> int n"
  unfolding partialGrid_def by blast

lemma partialGrid_distinct:
  "partialGrid n h w g \<Longrightarrow> inGrid n p \<Longrightarrow> inGrid n q \<Longrightarrow> p \<noteq> q \<Longrightarrow> sameUnit h w p q \<Longrightarrow>
   cellAt g p \<noteq> Some 0 \<Longrightarrow> cellAt g p \<noteq> cellAt g q"
  unfolding partialGrid_def by blast

lemma sameUnit_sym: "sameUnit h w p q \<Longrightarrow> sameUnit h w q p"
  by (auto simp: sameUnit_def)

lemma square_setCell [simp]: "square n (setCell g r c v) = square n g"
proof -
  have "\<And>row. row \<in> set (g[r := (g ! r)[c := v]]) \<Longrightarrow> \<exists>row' \<in> set g. length row' = length row"
    by (metis in_set_conv_nth length_list_update nth_list_update_eq nth_list_update_neq nth_mem)
  moreover have "\<And>row. row \<in> set g \<Longrightarrow> \<exists>row' \<in> set (g[r := (g ! r)[c := v]]). length row' = length row"
    by (metis in_set_conv_nth length_list_update nth_list_update_eq nth_list_update_neq nth_mem)
  ultimately show ?thesis
    unfolding square_def setCell_def by (metis length_list_update)
qed

lemma square_cellAt:
  "square n g \<Longrightarrow> cellAt g p = (if inGrid n p then Some (g ! fst p ! snd p) else None)"
  by (auto simp: square_def cellAt_def cell_def inGrid_def)

lemma cellAt_setCell:
  "square n g \<Longrightarrow>
   cellAt (setCell g r c v) p = (if p = (r, c) \<and> inGrid n p then Some v else cellAt g p)"
proof -
  assume sq: "square n g"
  have "cellAt (setCell g r c v) p =
      (if p = (r, c) \<and> cellAt g p \<noteq> None then Some v else cellAt g p)"
    by (cases p) (auto simp: cellAt_def cell_setCell)
  then show ?thesis using square_cellAt [OF sq, of p] by auto
qed

lemma partialGrid_place:
  assumes pg: "partialGrid n h w g" and p: "inGrid n p" and num: "0 \<le> num" "num \<le> int n"
    and free: "\<not> (\<exists>q. inGrid n q \<and> sameUnit h w p q \<and> cellAt g q = Some num)"
  shows "partialGrid n h w (setCell g (fst p) (snd p) num)"
proof -
  from pg have sq: "square n g" by (simp add: partialGrid_def)
  note c = cellAt_setCell [OF sq, of "fst p" "snd p" num, simplified]
  show ?thesis
    unfolding partialGrid_def
  proof (intro conjI allI impI)
    show "square n (setCell g (fst p) (snd p) num)" using sq by simp
  next
    fix a assume "inGrid n a"
    then show "\<exists>v. cellAt (setCell g (fst p) (snd p) num) a = Some v \<and> 0 \<le> v \<and> v \<le> int n"
      using partialGrid_range [OF pg, of a] num by (auto simp: c)
  next
    fix a b
    assume h: "inGrid n a \<and> inGrid n b \<and> a \<noteq> b \<and> sameUnit h w a b \<and>
       cellAt (setCell g (fst p) (snd p) num) a \<noteq> Some 0"
    show "cellAt (setCell g (fst p) (snd p) num) a \<noteq> cellAt (setCell g (fst p) (snd p) num) b"
    proof (cases "a = p")
      case True
      with h free have "cellAt g b \<noteq> Some num" "b \<noteq> p" by blast+
      with True p show ?thesis by (auto simp: c)
    next
      case False
      note ap = False
      show ?thesis
      proof (cases "b = p")
        case True
        with h free sameUnit_sym [of h w a b] have "cellAt g a \<noteq> Some num" by blast
        with True ap p show ?thesis by (auto simp: c)
      next
        case False
        with ap h partialGrid_distinct [OF pg, of a b] show ?thesis by (simp add: c)
      qed
    qed
  qed
qed

lemma partialGrid_erase:
  assumes pg: "partialGrid n h w g"
  shows "partialGrid n h w (setCell g r c 0)"
proof -
  from pg have sq: "square n g" by (simp add: partialGrid_def)
  note c = cellAt_setCell [OF sq, of r c 0]
  show ?thesis
    unfolding partialGrid_def
  proof (intro conjI allI impI)
    show "square n (setCell g r c 0)" using sq by simp
  next
    fix a assume "inGrid n a"
    then show "\<exists>v. cellAt (setCell g r c 0) a = Some v \<and> 0 \<le> v \<and> v \<le> int n"
      using partialGrid_range [OF pg, of a] by (auto simp: c)
  next
    fix a b
    assume h: "inGrid n a \<and> inGrid n b \<and> a \<noteq> b \<and> sameUnit h w a b \<and>
       cellAt (setCell g r c 0) a \<noteq> Some 0"
    then have a: "a \<noteq> (r, c)" "cellAt g a \<noteq> Some 0" by (auto simp: c split: if_splits)
    with h partialGrid_distinct [OF pg, of a b] have "cellAt g a \<noteq> cellAt g b" by simp
    with a h show "cellAt (setCell g r c 0) a \<noteq> cellAt (setCell g r c 0) b"
      by (auto simp: c)
  qed
qed

lemma partialGrid_emptyGrid: "partialGrid n h w (emptyGrid n)"
proof -
  have sq: "square n (emptyGrid n)" by (simp add: square_def emptyGrid_def)
  have "\<And>p. inGrid n p \<Longrightarrow> cellAt (emptyGrid n) p = Some 0"
    by (simp add: square_cellAt [OF sq]) (simp add: emptyGrid_def inGrid_def)
  with sq show ?thesis by (simp add: partialGrid_def)
qed

section \<open>Partial grids without empty cells are the valid solutions\<close>

definition units :: "nat \<Rightarrow> nat \<Rightarrow> nat \<Rightarrow> (nat \<times> nat) list list" where
  "units n h w = rowUnits n @ colUnits n @ boxUnits n h w"

lemma eachOnce_cellAt:
  "eachOnce n g u = (\<forall>v \<in> {1..int n}. count_list (map (cellAt g) u) (Some v) = 1)"
  by (simp add: eachOnce_def cellAt_def [abs_def])

lemma validSolution_units:
  "boxShape n = Some (h, w) \<Longrightarrow>
   validSolution n g = (square n g \<and> (\<forall>u \<in> set (units n h w). eachOnce n g u))"
  by (simp add: validSolution_def square_def units_def)

lemma distinct_boxCells: "distinct (boxCells a b h w)"
  unfolding boxCells_def
  by (rule distinct_map [THEN iffD2]) (auto simp: distinct_product inj_on_def)

lemma length_boxCells: "length (boxCells a b h w) = h * w"
  by (simp add: boxCells_def)

lemma units_cases:
  assumes "0 < h" "0 < w" "h * w = n" "u \<in> set (units n h w)"
  obtains (row) r where "r < n" "u = map (\<lambda>c. (r, c)) [0..<n]"
    | (col) c where "c < n" "u = map (\<lambda>r. (r, c)) [0..<n]"
    | (box) bi bj where "bi < w" "bj < h" "u = boxCells (bi * h) (bj * w) h w"
proof -
  have dh: "n div h = w" and dw: "n div w = h" using assms(1-3) by auto
  from assms(4) have "u \<in> set (rowUnits n) \<or> u \<in> set (colUnits n) \<or> u \<in> set (boxUnits n h w)"
    by (simp add: units_def)
  then show ?thesis
  proof (elim disjE)
    assume "u \<in> set (rowUnits n)"
    then show ?thesis using row by (auto simp: rowUnits_def)
  next
    assume "u \<in> set (colUnits n)"
    then show ?thesis using col by (auto simp: colUnits_def)
  next
    assume "u \<in> set (boxUnits n h w)"
    then show ?thesis using box by (auto simp: boxUnits_def dh dw)
  qed
qed

lemma box_unit_mem:
  "0 < h \<Longrightarrow> 0 < w \<Longrightarrow>
   p \<in> set (boxCells (bi * h) (bj * w) h w) \<longleftrightarrow> fst p div h = bi \<and> snd p div w = bj"
  using div_block [of h bi "fst p"] div_block [of w bj "snd p"]
  by (cases p) (auto simp: set_boxCells)

lemma unit_props:
  assumes "0 < h" "0 < w" "h * w = n" "u \<in> set (units n h w)"
  shows "distinct u" "length u = n" "\<forall>p \<in> set u. inGrid n p"
    "\<forall>p \<in> set u. \<forall>q \<in> set u. sameUnit h w p q"
proof -
  from assms have "distinct u \<and> length u = n \<and> (\<forall>p \<in> set u. inGrid n p) \<and>
      (\<forall>p \<in> set u. \<forall>q \<in> set u. sameUnit h w p q)"
  proof (cases rule: units_cases)
    case row
    then show ?thesis by (auto simp: distinct_map inj_on_def inGrid_def sameUnit_def)
  next
    case col
    then show ?thesis by (auto simp: distinct_map inj_on_def inGrid_def sameUnit_def)
  next
    case (box bi bj)
    note in_u = box_unit_mem [OF assms(1,2), of _ bi bj]
    have ig: "inGrid n p" if "p \<in> set u" for p
    proof -
      from that have "fst p div h < w" "snd p div w < h" using in_u box by auto
      then have "fst p < w * h" "snd p < h * w"
        using assms(1,2) by (simp_all add: div_less_iff_less_mult)
      then show "inGrid n p" using assms(3) by (simp add: inGrid_def mult.commute)
    qed
    have su: "sameUnit h w p q" if "p \<in> set u" "q \<in> set u" for p q
      using that in_u box(3) by (simp add: sameUnit_def)
    from ig su show ?thesis
      using assms(3) by (simp add: box(3) distinct_boxCells length_boxCells)
  qed
  then show "distinct u" "length u = n" "\<forall>p \<in> set u. inGrid n p"
    "\<forall>p \<in> set u. \<forall>q \<in> set u. sameUnit h w p q" by simp_all
qed

lemma common_unit:
  assumes "0 < h" "0 < w" "h * w = n" "inGrid n p" "inGrid n q" "sameUnit h w p q"
  shows "\<exists>u \<in> set (units n h w). p \<in> set u \<and> q \<in> set u"
proof -
  have dh: "n div h = w" and dw: "n div w = h" using assms(1-3) by auto
  from assms(6) consider "fst p = fst q" | "snd p = snd q"
    | "fst p div h = fst q div h" "snd p div w = snd q div w"
    by (auto simp: sameUnit_def)
  then show ?thesis
  proof cases
    case 1
    let ?u = "map (\<lambda>c. (fst p, c)) [0..<n]"
    have "?u \<in> set (units n h w)" using assms(4) by (auto simp: units_def rowUnits_def inGrid_def)
    moreover have "p \<in> set ?u" "q \<in> set ?u"
      using assms(4,5) 1 by (cases p; cases q; auto simp: inGrid_def)+
    ultimately show ?thesis by blast
  next
    case 2
    let ?u = "map (\<lambda>r. (r, snd p)) [0..<n]"
    have "?u \<in> set (units n h w)" using assms(4) by (auto simp: units_def colUnits_def inGrid_def)
    moreover have "p \<in> set ?u" "q \<in> set ?u"
      using assms(4,5) 2 by (cases p; cases q; auto simp: inGrid_def)+
    ultimately show ?thesis by blast
  next
    case 3
    let ?bi = "fst p div h" and ?bj = "snd p div w"
    let ?u = "boxCells (?bi * h) (?bj * w) h w"
    have "fst p < w * h" "snd p < h * w" using assms(3,4) by (auto simp: inGrid_def mult.commute)
    then have "?bi < w" "?bj < h" using assms(1,2) by (simp_all add: div_less_iff_less_mult)
    then have "(?bi, ?bj) \<in> set (List.product [0..<n div h] [0..<n div w])"
      by (simp add: dh dw)
    then have "?u \<in> set (boxUnits n h w)"
      unfolding boxUnits_def set_map by (rule rev_image_eqI) simp
    then have "?u \<in> set (units n h w)" by (simp add: units_def)
    moreover have "p \<in> set ?u" "q \<in> set ?u"
      using 3 by (simp_all add: box_unit_mem [OF assms(1,2)])
    ultimately show ?thesis by blast
  qed
qed

lemma noEmptyD: "noEmpty n g \<Longrightarrow> inGrid n p \<Longrightarrow> cellAt g p \<noteq> Some 0"
  unfolding noEmpty_def by blast

lemma count_list_distinct: "distinct xs \<Longrightarrow> x \<in> set xs \<Longrightarrow> count_list xs x = 1"
  by (induction xs) auto

lemma each_once_imp_perm:
  assumes once: "\<forall>v \<in> {1..int n}. count_list xs (Some v) = 1" and len: "length xs = n"
  shows "distinct xs \<and> set xs = Some ` {1..int n}"
proof -
  let ?T = "map Some [1..int n]"
  have dT: "distinct ?T" by (simp add: distinct_map)
  have "mset ?T \<subseteq># mset xs"
  proof (rule mset_subset_eqI)
    fix a
    show "count (mset ?T) a \<le> count (mset xs) a"
    proof (cases "a \<in> set ?T")
      case True
      then have "count_list ?T a = 1" using dT by (rule count_list_distinct [rotated])
      moreover from True once have "count_list xs a = 1" by auto
      ultimately show ?thesis unfolding count_mset by simp
    next
      case False
      then have "count_list ?T a = 0" by (simp only: count_list_0_iff not_False_eq_True)
      then show ?thesis unfolding count_mset by simp
    qed
  qed
  moreover have "size (mset ?T) = size (mset xs)" using len by simp
  ultimately have "mset ?T = mset xs"
    by (metis mset_subset_size subset_mset.less_le nat_neq_iff)
  then have "distinct xs = distinct ?T" "set xs = set ?T"
    by (simp_all only: mset_eq_imp_distinct_iff [of ?T xs] mset_eq_setD [of ?T xs])
  with dT show ?thesis by simp
qed

lemma perm_imp_each_once:
  assumes "distinct xs" "set xs = Some ` {1..int n}"
  shows "\<forall>v \<in> {1..int n}. count_list xs (Some v) = 1"
proof
  fix v assume "v \<in> {1..int n}"
  with assms(2) have "Some v \<in> set xs" by blast
  with assms(1) show "count_list xs (Some v) = 1" by (rule count_list_distinct)
qed

lemma card_Some_range: "card (Some ` {1..int n}) = n"
  by (simp add: card_image)

lemma valid_imp_partial:
  assumes v: "validSolution n g" and bs: "boxShape n = Some (h, w)" and n: "0 < n"
  shows "partialGrid n h w g \<and> noEmpty n g"
proof -
  note d = boxShape_dims [OF bs n]
  from v bs have sq: "square n g" and each: "\<And>u. u \<in> set (units n h w) \<Longrightarrow> eachOnce n g u"
    by (simp_all add: validSolution_units)
  have perm: "distinct (map (cellAt g) u) \<and> set (map (cellAt g) u) = Some ` {1..int n}"
    if "u \<in> set (units n h w)" for u
    using each [OF that] unit_props(2) [OF d(1-3) that]
    by (intro each_once_imp_perm) (simp_all add: eachOnce_cellAt)
  have own: "\<exists>u \<in> set (units n h w). p \<in> set u" if "inGrid n p" for p
    using common_unit [OF d(1-3) that that] by (auto simp: sameUnit_def)
  have val: "cellAt g p \<in> Some ` {1..int n}" if "inGrid n p" for p
  proof -
    from own [OF that] obtain u where u: "u \<in> set (units n h w)" "p \<in> set u" by blast
    from perm [OF u(1)] u(2) show ?thesis by (metis image_eqI set_map)
  qed
  have "partialGrid n h w g"
    unfolding partialGrid_def
  proof (intro conjI allI impI)
    show "square n g" by (rule sq)
  next
    fix p assume "inGrid n p"
    from val [OF this] show "\<exists>v. cellAt g p = Some v \<and> 0 \<le> v \<and> v \<le> int n" by auto
  next
    fix p q
    assume a: "inGrid n p \<and> inGrid n q \<and> p \<noteq> q \<and> sameUnit h w p q \<and> cellAt g p \<noteq> Some 0"
    with common_unit [OF d(1-3), of p q] obtain u where
      u: "u \<in> set (units n h w)" "p \<in> set u" "q \<in> set u" by blast
    from perm [OF u(1)] have "inj_on (cellAt g) (set u)" by (simp add: distinct_map)
    with u a show "cellAt g p \<noteq> cellAt g q" by (auto dest: inj_onD)
  qed
  moreover have "noEmpty n g"
    unfolding noEmpty_def using val by fastforce
  ultimately show ?thesis ..
qed

lemma partial_full_imp_valid:
  assumes pg: "partialGrid n h w g" and full: "noEmpty n g"
    and bs: "boxShape n = Some (h, w)" and n: "0 < n"
  shows "validSolution n g"
proof -
  note d = boxShape_dims [OF bs n]
  have "eachOnce n g u" if u: "u \<in> set (units n h w)" for u
  proof -
    note up = unit_props [OF d(1-3) u]
    have inj: "inj_on (cellAt g) (set u)"
    proof (rule inj_onI, rule ccontr)
      fix p q assume pq: "p \<in> set u" "q \<in> set u" "cellAt g p = cellAt g q" "p \<noteq> q"
      with up have ig: "inGrid n p" "inGrid n q" "sameUnit h w p q" by auto
      from full ig(1) have "cellAt g p \<noteq> Some 0" by (rule noEmptyD)
      from partialGrid_distinct [OF pg ig(1,2) pq(4) ig(3) this] pq(3) show False by simp
    qed
    with up have dist: "distinct (map (cellAt g) u)" by (simp add: distinct_map)
    have sub: "set (map (cellAt g) u) \<subseteq> Some ` {1..int n}"
    proof
      fix x assume "x \<in> set (map (cellAt g) u)"
      then obtain p where p: "p \<in> set u" "x = cellAt g p" by auto
      with up have ig: "inGrid n p" by simp
      from partialGrid_range [OF pg ig] obtain v where
        v: "cellAt g p = Some v" "0 \<le> v" "v \<le> int n" by blast
      moreover from full ig have "cellAt g p \<noteq> Some 0" by (rule noEmptyD)
      ultimately have "1 \<le> v" by (cases "v = 0") auto
      with v p show "x \<in> Some ` {1..int n}" by simp
    qed
    have "card (set (map (cellAt g) u)) = n"
      using dist up(2) by (metis distinct_card length_map)
    with sub have "set (map (cellAt g) u) = Some ` {1..int n}"
      by (intro card_subset_eq) (simp_all add: card_Some_range)
    with dist show ?thesis
      unfolding eachOnce_cellAt by (rule perm_imp_each_once)
  qed
  with partialGrid_square [OF pg] bs show ?thesis
    by (simp add: validSolution_units)
qed

section \<open>What a fill attempt leaves behind\<close>

lemma shuffleLoop_mset:
  "i < length xs \<Longrightarrow> mset (fst (shuffleLoop i xs wd)) = mset xs"
proof (induction i arbitrary: xs wd)
  case 0
  then show ?case by simp
next
  case (Suc i)
  obtain j wd' where r: "randomBelow (Suc i + 1) wd = (j, wd')" by (cases "randomBelow (Suc i + 1) wd")
  then have "j < Suc i + 1" by (auto simp: randomBelow_def)
  with Suc.prems have j: "j < length xs" by simp
  let ?xs = "xs[Suc i := xs ! j, j := xs ! Suc i]"
  have "mset (fst (shuffleLoop i ?xs wd')) = mset ?xs"
    using Suc.prems by (intro Suc.IH) simp
  also have "mset ?xs = mset xs" using Suc.prems j by (simp add: mset_swap)
  finally show ?case using r by simp
qed

lemma shuffleArray_mset: "mset (fst (shuffleArray xs wd)) = mset xs"
proof (cases xs)
  case Nil
  then show ?thesis by (simp add: shuffleArray_def)
next
  case (Cons x ys)
  then show ?thesis unfolding shuffleArray_def by (intro shuffleLoop_mset) simp
qed

lemma shuffleArray_set: "shuffleArray xs wd = (ys, wd') \<Longrightarrow> set ys = set xs"
  using shuffleArray_mset [of xs wd] by (metis fst_conv mset_eq_setD)

definition beforePos :: "nat \<times> nat \<Rightarrow> nat \<times> nat \<Rightarrow> bool" where
  "beforePos p q = (fst p < fst q \<or> (fst p = fst q \<and> snd p < snd q))"

definition fillPost ::
  "nat \<Rightarrow> nat \<Rightarrow> nat \<Rightarrow> nat \<Rightarrow> nat \<Rightarrow> grid \<Rightarrow> error + bool \<times> grid \<times> world \<Rightarrow> bool" where
  "fillPost n h w row col g res =
     (case res of
        Inl e \<Rightarrow> False
      | Inr r \<Rightarrow>
          partialGrid n h w (fst (snd r)) \<and>
          (\<forall>p. inGrid n p \<and> beforePos p (row, col) \<longrightarrow> cellAt (fst (snd r)) p = cellAt g p) \<and>
          (fst r \<longrightarrow> (\<forall>p. inGrid n p \<and> \<not> beforePos p (row, col)
                          \<longrightarrow> cellAt (fst (snd r)) p \<noteq> Some 0)))"

lemma fillPost_shift:
  assumes post: "fillPost n h w row' col' g res"
    and earlier: "\<And>p. inGrid n p \<Longrightarrow> beforePos p (row, col) \<Longrightarrow> beforePos p (row', col')"
    and gap: "\<And>p. inGrid n p \<Longrightarrow> \<not> beforePos p (row, col) \<Longrightarrow> beforePos p (row', col') \<Longrightarrow>
                cellAt g p \<noteq> Some 0"
  shows "fillPost n h w row col g res"
proof (cases res)
  case (Inl e)
  with post show ?thesis by (simp add: fillPost_def)
next
  case (Inr r)
  with post have pg: "partialGrid n h w (fst (snd r))"
    and same: "\<And>p. inGrid n p \<Longrightarrow> beforePos p (row', col') \<Longrightarrow> cellAt (fst (snd r)) p = cellAt g p"
    and full: "\<And>p. fst r \<Longrightarrow> inGrid n p \<Longrightarrow> \<not> beforePos p (row', col') \<Longrightarrow>
                 cellAt (fst (snd r)) p \<noteq> Some 0"
    unfolding fillPost_def by auto
  have "cellAt (fst (snd r)) p \<noteq> Some 0"
    if "fst r" "inGrid n p" "\<not> beforePos p (row, col)" for p
  proof (cases "beforePos p (row', col')")
    case True
    with same that gap show ?thesis by simp
  next
    case False
    with full that show ?thesis by simp
  qed
  with pg same earlier Inr show ?thesis unfolding fillPost_def by auto
qed

lemma fillPost_from:
  assumes post: "fillPost n h w row col g1 res"
    and same: "\<And>p. inGrid n p \<Longrightarrow> beforePos p (row, col) \<Longrightarrow> cellAt g1 p = cellAt g p"
  shows "fillPost n h w row col g res"
  using assms unfolding fillPost_def by (auto split: sum.splits)

definition boxFits :: "nat \<Rightarrow> nat \<Rightarrow> nat \<Rightarrow> nat \<Rightarrow> bool" where
  "boxFits n b h w = (boxShape n = Some (h, w) \<and> 0 < n \<and> (n \<noteq> 6 \<longrightarrow> b = h))"

lemma fill_invariant:
  "partialGrid n h w (fst gw) \<Longrightarrow> boxFits n b h w \<Longrightarrow> row \<le> n \<Longrightarrow> col \<le> n \<Longrightarrow>
     fillPost n h w row col (fst gw) (fillGridRecursive n b row col st tmo gw)"
  "partialGrid n h w (fst gw) \<Longrightarrow> boxFits n b h w \<Longrightarrow> row < n \<Longrightarrow> col < n \<Longrightarrow>
     cellAt (fst gw) (row, col) = Some 0 \<Longrightarrow> \<forall>num \<in> set nums. 1 \<le> num \<and> num \<le> int n \<Longrightarrow>
     fillPost n h w row col (fst gw) (tryNumbers n b row col st tmo nums gw)"
proof (induction n b row col st tmo gw and n b row col st tmo nums gw
    rule: fillGridRecursive_tryNumbers.induct)
  case (1 n b row col st tmo g wd)
  obtain now w1 where dn: "dateNow wd = (now, w1)" by (cases "dateNow wd")
  from "1.prems" have pg: "partialGrid n h w g" by simp
  have stay: "fillPost n h w row col g (Inr (ok, g, w1))" if "ok \<longrightarrow> row = n" for ok
    using pg that "1.prems"(3) by (auto simp: fillPost_def inGrid_def beforePos_def)
  show ?case
  proof (cases "tmo < now - st")
    case True
    with dn stay [of False] show ?thesis by (simp add: fillGridRecursive.simps)
  next
    case False
    note in_time = False
    show ?thesis
    proof (cases "row = n")
      case True
      with dn in_time "1.prems" stay [of True] show ?thesis
        by (simp add: fillGridRecursive.simps)
    next
      case False
      note row = False
      with "1.prems" have rown: "row < n" by simp
      show ?thesis
      proof (cases "col = n")
        case True
        from "1.prems" row True in_time have guard: "\<not> (n < row \<or> n < col)" by simp
        have "fillPost n h w (row + 1) 0 g (fillGridRecursive n b (row + 1) 0 st tmo (g, w1))"
          using "1.IH"(1) [OF dn [symmetric] in_time guard row True] "1.prems" rown by simp
        then have "fillPost n h w row col g (fillGridRecursive n b (row + 1) 0 st tmo (g, w1))"
          by (rule fillPost_shift) (use True in \<open>auto simp: beforePos_def inGrid_def\<close>)
        with dn in_time row True guard show ?thesis by (simp add: fillGridRecursive.simps)
      next
        case False
        note col = False
        with "1.prems" have coln: "col < n" by simp
        from "1.prems" have guard: "\<not> (n < row \<or> n < col)" by simp
        from partialGrid_square [OF pg] rown have present: "\<not> length g \<le> row"
          by (simp add: square_def)
        show ?thesis
        proof (cases "cell g row col = Some 0")
          case False
          have "fillPost n h w row (col + 1) g (fillGridRecursive n b row (col + 1) st tmo (g, w1))"
            using "1.IH"(2) [OF dn [symmetric] in_time guard row col present False] "1.prems" coln
            by simp
          then have "fillPost n h w row col g (fillGridRecursive n b row (col + 1) st tmo (g, w1))"
          proof (rule fillPost_shift)
            fix p assume "inGrid n p" "beforePos p (row, col)"
            then show "beforePos p (row, col + 1)" by (auto simp: beforePos_def)
          next
            fix p assume "inGrid n p" "\<not> beforePos p (row, col)" "beforePos p (row, col + 1)"
            then have "p = (row, col)" by (cases p) (auto simp: beforePos_def)
            with False show "cellAt g p \<noteq> Some 0" by (simp add: cellAt_def)
          qed
          with dn in_time row col guard present False show ?thesis
            by (simp add: fillGridRecursive.simps)
        next
          case True
          obtain numbers w2 where sh: "shuffleArray (map (\<lambda>i. int i + 1) [0..<n]) w1 = (numbers, w2)"
            by (cases "shuffleArray (map (\<lambda>i. int i + 1) [0..<n]) w1")
          from shuffleArray_set [OF sh] have nums: "\<forall>num \<in> set numbers. 1 \<le> num \<and> num \<le> int n"
            by auto
          have "\<not> cell g row col \<noteq> Some 0" using True by simp
          from "1.IH"(3) [OF dn [symmetric] in_time guard row col present this sh [symmetric]]
          have "fillPost n h w row col g (tryNumbers n b row col st tmo numbers (g, w2))"
            using "1.prems" rown coln True nums by (simp add: cellAt_def)
          with dn in_time row col guard present True sh show ?thesis
            by (simp add: fillGridRecursive.simps)
        qed
      qed
    qed
  qed
next
  case (2 n b row col st tmo g wd)
  then show ?case by (simp add: fillPost_def)
next
  case (3 n b row col st tmo num rest g wd)
  from "3.prems" have pg: "partialGrid n h w g" and fits: "boxFits n b h w"
    and rc: "row < n" "col < n" and empty: "cellAt g (row, col) = Some 0"
    and num: "1 \<le> num" "num \<le> int n" and rest: "\<forall>num \<in> set rest. 1 \<le> num \<and> num \<le> int n"
    by simp_all
  note sq = partialGrid_square [OF pg]
  from fits have bs: "boxShape n = Some (h, w)" "0 < n" "n \<noteq> 6 \<longrightarrow> b = h"
    by (simp_all add: boxFits_def)
  let ?free = "\<not> (\<exists>q. inGrid n q \<and> sameUnit h w (row, col) q \<and> cellAt g q = Some num)"
  from sq have len: "length g = n" by (simp add: square_def)
  define ok where "ok = ?free"
  have v: "isValid n b g row col num = Inr ok"
    unfolding ok_def by (rule isValid_iff [OF bs rc len])
  show ?case
  proof (cases ok)
    case False
    from "3.IH"(3) [OF v False] "3.prems" have
      "fillPost n h w row col g (tryNumbers n b row col st tmo rest (g, wd))" by simp
    with v False show ?thesis by simp
  next
    case True
    then have free: ?free unfolding ok_def .
    let ?g1 = "setCell g row col num"
    have ig: "inGrid n (row, col)" using rc by (simp add: inGrid_def)
    have pg1: "partialGrid n h w ?g1"
      using partialGrid_place [OF pg ig _ num(2)] num(1) free by simp
    have c1: "\<And>p. cellAt ?g1 p = (if p = (row, col) then Some num else cellAt g p)"
      using cellAt_setCell [OF sq, of row col num] ig by auto
    let ?res = "fillGridRecursive n b row (col + 1) st tmo (?g1, wd)"
    have post1: "fillPost n h w row (col + 1) ?g1 ?res"
      using "3.IH"(1) [OF v True] pg1 fits rc by simp
    then obtain r where r: "?res = Inr r" by (cases ?res) (simp_all add: fillPost_def)
    from post1 r have pg': "partialGrid n h w (fst (snd r))"
      and same: "\<And>p. inGrid n p \<Longrightarrow> beforePos p (row, col + 1) \<Longrightarrow>
                   cellAt (fst (snd r)) p = cellAt ?g1 p"
      unfolding fillPost_def by auto
    show ?thesis
    proof (cases "fst r")
      case True
      have "fillPost n h w row col ?g1 (Inr r)"
        using post1 [unfolded r]
      proof (rule fillPost_shift)
        fix p assume "inGrid n p" "beforePos p (row, col)"
        then show "beforePos p (row, col + 1)" by (auto simp: beforePos_def)
      next
        fix p assume "inGrid n p" "\<not> beforePos p (row, col)" "beforePos p (row, col + 1)"
        then have "p = (row, col)" by (cases p) (auto simp: beforePos_def)
        with num show "cellAt ?g1 p \<noteq> Some 0" by (simp add: c1)
      qed
      then have "fillPost n h w row col g (Inr r)"
        by (rule fillPost_from) (auto simp: c1 beforePos_def)
      with v \<open>ok\<close> r True show ?thesis by simp
    next
      case False
      let ?g2 = "setCell (fst (snd r)) row col 0"
      note sq' = partialGrid_square [OF pg']
      have c2: "\<And>p. cellAt ?g2 p = (if p = (row, col) then Some 0 else cellAt (fst (snd r)) p)"
        using cellAt_setCell [OF sq', of row col 0] ig by auto
      have "fillPost n h w row col ?g2 (tryNumbers n b row col st tmo rest (?g2, snd (snd r)))"
        using "3.IH"(2) [OF v \<open>ok\<close> r False] partialGrid_erase [OF pg'] fits rc rest
        by (simp add: c2)
      then have "fillPost n h w row col g (tryNumbers n b row col st tmo rest (?g2, snd (snd r)))"
      proof (rule fillPost_from)
        fix p assume p: "inGrid n p" "beforePos p (row, col)"
        then have "p \<noteq> (row, col)" "beforePos p (row, col + 1)" by (auto simp: beforePos_def)
        with p same [of p] show "cellAt ?g2 p = cellAt g p" by (simp add: c1 c2)
      qed
      with v \<open>ok\<close> r False show ?thesis by simp
    qed
  qed
qed

section \<open>What the generator returns\<close>

lemma cellAt_fold_setCell:
  assumes "square n g"
  shows "cellAt (foldl (\<lambda>g p. setCell g (fst p) (snd p) (f p)) g ps) q =
     (case find (\<lambda>p. p = q) (rev ps) of
        Some p \<Rightarrow> if inGrid n q then Some (f q) else cellAt g q
      | None \<Rightarrow> cellAt g q) \<and>
     square n (foldl (\<lambda>g p. setCell g (fst p) (snd p) (f p)) g ps)"
  using assms
proof (induction ps arbitrary: g rule: rev_induct)
  case Nil
  then show ?case by simp
next
  case (snoc p ps)
  let ?g = "foldl (\<lambda>g p. setCell g (fst p) (snd p) (f p)) g ps"
  from snoc have sq: "square n ?g" by simp
  show ?case
    using snoc.IH [OF snoc.prems] cellAt_setCell [OF sq, of "fst p" "snd p" "f p" q]
    by (auto split: option.splits)
qed

lemma cellAt_fold_setCell_mem:
  assumes "square n g"
  shows "cellAt (foldl (\<lambda>g p. setCell g (fst p) (snd p) (f p)) g ps) q =
     (if q \<in> set ps \<and> inGrid n q then Some (f q) else cellAt g q)"
proof -
  have "(find (\<lambda>p. p = q) (rev ps) = None) = (q \<notin> set ps)"
    by (cases q) (auto simp: find_None_iff)
  then show ?thesis
    using cellAt_fold_setCell [OF assms, of f ps q] by (auto split: option.splits)
qed

lemma square_fold_setCell:
  "square n g \<Longrightarrow> square n (foldl (\<lambda>g p. setCell g (fst p) (snd p) (f p)) g ps)"
  using cellAt_fold_setCell by blast

lemma cellAt_removeCells:
  "square n g \<Longrightarrow>
   cellAt (removeCells g ps) q = (if q \<in> set ps \<and> inGrid n q then Some 0 else cellAt g q)"
  unfolding removeCells_def by (rule cellAt_fold_setCell_mem)

lemma square_removeCells: "square n g \<Longrightarrow> square n (removeCells g ps)"
  unfolding removeCells_def by (rule square_fold_setCell)

lemma fallback_cells:
  assumes "square (this_size this) (this_grid this)"
  shows "square (this_size this) (this_grid (createFallbackGrid this))"
    and "inGrid (this_size this) q \<Longrightarrow>
      cellAt (this_grid (createFallbackGrid this)) q =
        Some (fallbackValue (this_size this) (this_boxSize this) (fst q) (snd q))"
proof -
  show "square (this_size this) (this_grid (createFallbackGrid this))"
    using square_fold_setCell [OF assms] by (simp add: createFallbackGrid_def)
  assume "inGrid (this_size this) q"
  then have "q \<in> set (scanOrder (this_size this))" by (cases q) (simp add: inGrid_def)
  with \<open>inGrid (this_size this) q\<close> show
    "cellAt (this_grid (createFallbackGrid this)) q =
        Some (fallbackValue (this_size this) (this_boxSize this) (fst q) (snd q))"
    by (simp add: createFallbackGrid_def cellAt_fold_setCell_mem [OF assms])
qed

lemma square_eqI:
  assumes "square n g" "square n g'" "\<And>p. inGrid n p \<Longrightarrow> cellAt g p = cellAt g' p"
  shows "g = g'"
proof (rule nth_equalityI)
  show "length g = length g'" using assms by (simp add: square_def)
next
  fix r assume r: "r < length g"
  then have rn: "r < n" using assms(1) by (simp add: square_def)
  show "g ! r = g' ! r"
  proof (rule nth_equalityI)
    show "length (g ! r) = length (g' ! r)"
      using assms(1,2) rn by (simp add: square_def)
  next
    fix c assume "c < length (g ! r)"
    with assms(1) rn have "inGrid n (r, c)" by (simp add: square_def inGrid_def)
    from assms(3) [OF this] this show "g ! r ! c = g' ! r ! c"
      by (simp add: square_cellAt [OF assms(1)] square_cellAt [OF assms(2)])
  qed
qed

definition fallbackPattern :: "nat \<Rightarrow> nat \<Rightarrow> grid" where
  "fallbackPattern n b = map (\<lambda>row. map (\<lambda>col. fallbackValue n b row col) [0..<n]) [0..<n]"

lemma fallback_is_pattern:
  assumes "square (this_size this) (this_grid this)"
  shows "this_grid (createFallbackGrid this) = fallbackPattern (this_size this) (this_boxSize this)"
proof (rule square_eqI [of "this_size this"])
  show "square (this_size this) (this_grid (createFallbackGrid this))"
    by (rule fallback_cells(1) [OF assms])
  show sq: "square (this_size this) (fallbackPattern (this_size this) (this_boxSize this))"
    by (auto simp: square_def fallbackPattern_def)
  fix p assume p: "inGrid (this_size this) p"
  then show "cellAt (this_grid (createFallbackGrid this)) p =
      cellAt (fallbackPattern (this_size this) (this_boxSize this)) p"
    by (simp add: fallback_cells(2) [OF assms] square_cellAt [OF sq])
       (simp add: fallbackPattern_def inGrid_def)
qed

lemma fallbackPattern_noEmpty: "noEmpty n (fallbackPattern n b)"
proof -
  have sq: "square n (fallbackPattern n b)" by (auto simp: square_def fallbackPattern_def)
  show ?thesis
    unfolding noEmpty_def
    by (auto simp: square_cellAt [OF sq]) (auto simp: fallbackPattern_def inGrid_def fallbackValue_def)
qed

lemma fallbackPattern_square: "square n (fallbackPattern n b)"
  by (auto simp: square_def fallbackPattern_def)

lemma fillGrid_result:
  assumes "boxFits n b h w"
  shows "\<exists>ok g' wd'. fillGrid n b (emptyGrid n, wd) = Inr (ok, g', wd') \<and> partialGrid n h w g' \<and>
     (ok \<longrightarrow> validSolution n g')"
proof -
  obtain st w1 where dn: "dateNow wd = (st, w1)" by (cases "dateNow wd")
  have "fillPost n h w 0 0 (emptyGrid n) (fillGridRecursive n b 0 0 st 5000 (emptyGrid n, w1))"
    using fill_invariant(1) [of n h w "(emptyGrid n, w1)" b 0 0 st 5000] assms
    by (simp add: partialGrid_emptyGrid)
  then obtain r where r: "fillGridRecursive n b 0 0 st 5000 (emptyGrid n, w1) = Inr r"
    and pg: "partialGrid n h w (fst (snd r))"
    and full: "fst r \<Longrightarrow> noEmpty n (fst (snd r))"
    unfolding fillPost_def noEmpty_def
    by (cases "fillGridRecursive n b 0 0 st 5000 (emptyGrid n, w1)") (auto simp: beforePos_def)
  from assms have bs: "boxShape n = Some (h, w)" "0 < n" by (simp_all add: boxFits_def)
  have "fst r \<longrightarrow> validSolution n (fst (snd r))"
    using partial_full_imp_valid [OF pg _ bs] full by blast
  with r pg dn show ?thesis
    by (cases r) (auto simp: fillGrid_def)
qed

lemma generateAttempts_result:
  assumes "boxFits n b h w"
  shows "this_size (fst s) = n \<Longrightarrow> this_boxSize (fst s) = b \<Longrightarrow> square n (this_grid (fst s)) \<Longrightarrow>
    \<exists>this' wd'. generateAttempts attempts s = Inr (this', wd') \<and>
      this_size this' = n \<and> this_boxSize this' = b \<and> this_solution this' = this_grid this' \<and>
      square n (this_grid this') \<and> noEmpty n (this_grid this') \<and>
      (validSolution n (this_grid this') \<or> this_grid this' = fallbackPattern n b)"
proof (induction attempts s rule: generateAttempts.induct)
  case (1 attempts this wd)
  from assms have bs: "boxShape n = Some (h, w)" "0 < n" by (simp_all add: boxFits_def)
  show ?case
  proof (cases "attempts < 10")
    case False
    from "1.prems" have sq: "square (this_size this) (this_grid this)" by simp
    from False "1.prems" fallback_is_pattern [OF sq] show ?thesis
      by (simp add: generateAttempts.simps [of attempts] createFallbackGrid_def
          fallbackPattern_square fallbackPattern_noEmpty)
  next
    case True
    from fillGrid_result [OF assms, of wd] obtain ok g' wd' where
      f: "fillGrid n b (emptyGrid n, wd) = Inr (ok, g', wd')" and pg: "partialGrid n h w g'"
      and v: "ok \<longrightarrow> validSolution n g'" by blast
    show ?thesis
    proof (cases ok)
      case True
      with v valid_imp_partial [OF _ bs] have "validSolution n g'" "noEmpty n g'" by simp_all
      with f True \<open>attempts < 10\<close> "1.prems" partialGrid_square [OF pg] show ?thesis
        by (simp add: generateAttempts.simps [of attempts])
    next
      case False
      from f "1.prems" have f': "fillGrid (this_size this) (this_boxSize this)
          (emptyGrid (this_size this), wd) = Inr (ok, g', wd')" by simp
      have "\<not> fst (ok, g', wd')" using False by simp
      from "1.IH" [OF True f' this] "1.prems" partialGrid_square [OF pg]
      have "\<exists>this' wd''. generateAttempts (attempts + 1) (this\<lparr>this_grid := g'\<rparr>, wd') = Inr (this', wd'') \<and>
          this_size this' = n \<and> this_boxSize this' = b \<and> this_solution this' = this_grid this' \<and>
          square n (this_grid this') \<and> noEmpty n (this_grid this') \<and>
          (validSolution n (this_grid this') \<or> this_grid this' = fallbackPattern n b)"
        by simp
      with f' False True show ?thesis
        by (simp add: generateAttempts.simps [of attempts])
    qed
  qed
qed

lemma setSize_result:
  assumes "setSize n this = Inr this1" "0 < n"
  shows "this_size this1 = n" "this_grid this1 = emptyGrid n"
    "\<exists>h w. boxFits n (this_boxSize this1) h w"
proof -
  from assms(1) show "this_size this1 = n" "this_grid this1 = emptyGrid n"
    by (auto simp: setSize_def split: option.splits if_splits)
  have e4: "exactSqrt 4 = Some 2" and e9: "exactSqrt 9 = Some 3" by code_simp+
  from assms show "\<exists>h w. boxFits n (this_boxSize this1) h w"
    by (auto simp: setSize_def boxFits_def boxShape_def e4 e9 split: option.splits if_splits)
qed

lemma setSize_supported:
  "n = 4 \<or> n = 6 \<or> n = 9 \<Longrightarrow> \<exists>this1. setSize n this = Inr this1"
  by (auto simp: setSize_def)

section \<open>The solver is sound and complete on partial grids\<close>

definition extends :: "nat \<Rightarrow> grid \<Rightarrow> grid \<Rightarrow> bool" where
  "extends n g g' = (\<forall>p. inGrid n p \<longrightarrow> cellAt g p \<noteq> Some 0 \<longrightarrow> cellAt g' p = cellAt g p)"

lemma extendsD: "extends n g g' \<Longrightarrow> inGrid n p \<Longrightarrow> cellAt g p \<noteq> Some 0 \<Longrightarrow> cellAt g' p = cellAt g p"
  unfolding extends_def by blast

lemma extends_refl: "extends n g g"
  by (simp add: extends_def)

lemma firstEmpty_None_noEmpty: "length g = n \<Longrightarrow> firstEmpty g = None \<Longrightarrow> noEmpty n g"
  unfolding firstEmpty_None_iff noEmpty_def inGrid_def cellAt_def by blast

lemma firstEmpty_Some_cell:
  assumes "firstEmpty g = Some p" "length g = n"
  shows "inGrid n p" "cellAt g p = Some 0"
  using firstEmpty_Some [OF assms(1)] assms(2)
  by (cases p; simp add: inGrid_def isEmptyAt_def cellAt_def)+

lemma solve_sound:
  "partialGrid n h w g \<Longrightarrow> boxShape n = Some (h, w) \<Longrightarrow> 0 < n \<Longrightarrow>
     \<exists>ok g'. solvePuzzle g = Inr (ok, g') \<and>
       (ok \<longrightarrow> partialGrid n h w g' \<and> noEmpty n g' \<and> extends n g g')"
  "partialGrid n h w g0 \<Longrightarrow> boxShape n = Some (h, w) \<Longrightarrow> 0 < n \<Longrightarrow>
     inGrid n (row, col) \<Longrightarrow> cellAt g0 (row, col) = Some 0 \<Longrightarrow> 1 \<le> num \<Longrightarrow>
     \<exists>ok g'. solveCell g0 row col num = Inr (ok, g') \<and>
       (ok \<longrightarrow> partialGrid n h w g' \<and> noEmpty n g' \<and> extends n g0 g')"
proof (induction g and g0 row col num rule: solvePuzzle_solveCell.induct)
  case (1 g)
  from partialGrid_square [OF "1.prems"(1)] have len: "length g = n" by (simp add: square_def)
  show ?case
  proof (cases "firstEmpty g")
    case None
    with firstEmpty_None_noEmpty [OF len] "1.prems" show ?thesis
      by (auto simp: extends_refl solvePuzzle.simps)
  next
    case (Some p)
    from firstEmpty_Some_cell [OF Some len] have "inGrid n (fst p, snd p)" "cellAt g (fst p, snd p) = Some 0"
      by simp_all
    from "1.IH" [OF Some "1.prems" this] Some show ?thesis by (simp add: solvePuzzle.simps)
  qed
next
  case (2 g row col num)
  note pg = "2.prems"(1) and bs = "2.prems"(2,3) and ig = "2.prems"(4) and empty = "2.prems"(5)
  note sq = partialGrid_square [OF pg]
  then have len: "length g = n" by (simp add: square_def)
  from ig have rc: "row < n" "col < n" by (simp_all add: inGrid_def)
  show ?case
  proof (cases "length g < num")
    case True
    then show ?thesis by (auto simp: solveCell.simps [of g row col num])
  next
    case False
    note inside = False
    let ?free = "\<not> (\<exists>q. inGrid n q \<and> sameUnit h w (row, col) q \<and> cellAt g q = Some (int num))"
    define ok where "ok = ?free"
    have v: "isValidForGrid g row col (int num) = Inr ok"
      unfolding ok_def by (rule isValidForGrid_iff [OF bs rc len])
    show ?thesis
    proof (cases ok)
      case False
      from "2.IH"(3) [OF inside v False pg bs ig empty] v False inside show ?thesis
        by (simp add: solveCell.simps [of g row col num])
    next
      case True
      then have free: ?free unfolding ok_def .
      let ?g1 = "setCell g row col (int num)"
      have pg1: "partialGrid n h w ?g1"
        using partialGrid_place [OF pg ig _ _ free] inside len by simp
      have c1: "\<And>p. cellAt ?g1 p = (if p = (row, col) then Some (int num) else cellAt g p)"
        using cellAt_setCell [OF sq, of row col "int num"] ig by auto
      from "2.IH"(1) [OF inside v True pg1 bs] obtain ok1 g' where
        r: "solvePuzzle ?g1 = Inr (ok1, g')"
        and post: "ok1 \<longrightarrow> partialGrid n h w g' \<and> noEmpty n g' \<and> extends n ?g1 g'" by blast
      show ?thesis
      proof (cases ok1)
        case True
        have "extends n g g'"
          unfolding extends_def
        proof (intro allI impI)
          fix p assume p: "inGrid n p" "cellAt g p \<noteq> Some 0"
          with empty have "p \<noteq> (row, col)" by auto
          with p post True extendsD [of n ?g1 g' p] show "cellAt g' p = cellAt g p"
            by (simp add: c1)
        qed
        with post True r v \<open>ok\<close> inside show ?thesis
          by (auto simp: solveCell.simps [of g row col num])
      next
        case False
        with r have "solvePuzzle ?g1 = Inr (False, g')" by simp
        then have g': "g' = ?g1" by (rule solve_restores(1))
        from empty have undone: "setCell g row col 0 = g"
          by (simp add: setCell_same cellAt_def)
        have "\<not> fst (ok1, g')" using False by simp
        from "2.IH"(2) [OF inside v \<open>ok\<close> r this] pg bs ig empty
        have "\<exists>ok g'. solveCell g row col (num + 1) = Inr (ok, g') \<and>
            (ok \<longrightarrow> partialGrid n h w g' \<and> noEmpty n g' \<and> extends n g g')"
          by (simp add: g' undone)
        with r v \<open>ok\<close> inside False g' undone show ?thesis
          by (simp add: solveCell.simps [of g row col num])
      qed
    qed
  qed
qed

lemma solve_complete:
  "partialGrid n h w g \<Longrightarrow> boxShape n = Some (h, w) \<Longrightarrow> 0 < n \<Longrightarrow>
     validSolution n s \<Longrightarrow> extends n g s \<Longrightarrow> \<exists>g'. solvePuzzle g = Inr (True, g')"
  "partialGrid n h w g0 \<Longrightarrow> boxShape n = Some (h, w) \<Longrightarrow> 0 < n \<Longrightarrow>
     validSolution n s \<Longrightarrow> extends n g0 s \<Longrightarrow>
     inGrid n (row, col) \<Longrightarrow> cellAt g0 (row, col) = Some 0 \<Longrightarrow> 1 \<le> num \<Longrightarrow>
     \<exists>sv. cellAt s (row, col) = Some sv \<and> int num \<le> sv \<Longrightarrow>
     \<exists>g'. solveCell g0 row col num = Inr (True, g')"
proof (induction g and g0 row col num rule: solvePuzzle_solveCell.induct)
  case (1 g)
  note pg = "1.prems"(1) and bs = "1.prems"(2,3) and vs = "1.prems"(4) and ex = "1.prems"(5)
  from partialGrid_square [OF pg] have len: "length g = n" by (simp add: square_def)
  show ?case
  proof (cases "firstEmpty g")
    case None
    then show ?thesis by (simp add: solvePuzzle.simps)
  next
    case (Some p)
    from firstEmpty_Some_cell [OF Some len] have p: "inGrid n (fst p, snd p)" "cellAt g (fst p, snd p) = Some 0"
      by simp_all
    from valid_imp_partial [OF vs bs] have "partialGrid n h w s" "noEmpty n s" by simp_all
    from partialGrid_range [OF this(1) p(1)] noEmptyD [OF this(2) p(1)]
    obtain sv where "cellAt s (fst p, snd p) = Some sv" "0 \<le> sv" "sv \<noteq> 0" by auto
    then have "\<exists>sv. cellAt s (fst p, snd p) = Some sv \<and> int 1 \<le> sv" by auto
    from "1.IH" [OF Some pg bs vs ex p _ this] Some show ?thesis by (simp add: solvePuzzle.simps)
  qed
next
  case (2 g row col num)
  note pg = "2.prems"(1) and bs = "2.prems"(2,3) and vs = "2.prems"(4) and ex = "2.prems"(5)
    and ig = "2.prems"(6) and empty = "2.prems"(7) and num = "2.prems"(8)
  from "2.prems"(9) obtain sv where sv: "cellAt s (row, col) = Some sv" "int num \<le> sv" by blast
  from valid_imp_partial [OF vs bs] have ps: "partialGrid n h w s" and fs: "noEmpty n s" by simp_all
  from partialGrid_range [OF ps ig] sv have svn: "sv \<le> int n" by simp
  note sq = partialGrid_square [OF pg]
  then have len: "length g = n" by (simp add: square_def)
  from ig have rc: "row < n" "col < n" by (simp_all add: inGrid_def)
  from sv svn len have inside: "\<not> length g < num" by simp
  let ?free = "\<not> (\<exists>q. inGrid n q \<and> sameUnit h w (row, col) q \<and> cellAt g q = Some (int num))"
  define ok where "ok = ?free"
  have v: "isValidForGrid g row col (int num) = Inr ok"
    unfolding ok_def by (rule isValidForGrid_iff [OF bs rc len])
  have c1: "\<And>p. cellAt (setCell g row col (int num)) p =
      (if p = (row, col) then Some (int num) else cellAt g p)"
    using cellAt_setCell [OF sq, of row col "int num"] ig by auto
  show ?case
  proof (cases ok)
    case False
    then obtain q where q: "inGrid n q" "sameUnit h w (row, col) q" "cellAt g q = Some (int num)"
      unfolding ok_def by blast
    have "int num \<noteq> sv"
    proof
      assume eq: "int num = sv"
      from q(3) empty num have ne: "q \<noteq> (row, col)" by auto
      from q(3) num have "cellAt g q \<noteq> Some 0" by simp
      from extendsD [OF ex q(1) this] q(3) eq have "cellAt s q = cellAt s (row, col)"
        by (simp add: sv)
      moreover from noEmptyD [OF fs ig] have "cellAt s (row, col) \<noteq> Some 0" .
      ultimately show False
        using partialGrid_distinct [OF ps ig q(1) ne [symmetric] q(2)] by simp
    qed
    with sv have "\<exists>sv. cellAt s (row, col) = Some sv \<and> int (num + 1) \<le> sv" by auto
    from "2.IH"(3) [OF inside v False pg bs vs ex ig empty _ this] v False inside show ?thesis
      by (simp add: solveCell.simps [of g row col num])
  next
    case True
    then have free: ?free unfolding ok_def .
    let ?g1 = "setCell g row col (int num)"
    have pg1: "partialGrid n h w ?g1"
      using partialGrid_place [OF pg ig _ _ free] inside len by simp
    from solve_sound(1) [OF pg1 bs] obtain ok1 g' where r: "solvePuzzle ?g1 = Inr (ok1, g')"
      by blast
    show ?thesis
    proof (cases ok1)
      case True
      with r v \<open>ok\<close> inside show ?thesis by (simp add: solveCell.simps [of g row col num])
    next
      case False
      with r have "solvePuzzle ?g1 = Inr (False, g')" by simp
      then have g': "g' = ?g1" by (rule solve_restores(1))
      from empty have undone: "setCell g row col 0 = g"
        by (simp add: setCell_same cellAt_def)
      have "int num \<noteq> sv"
      proof
        assume eq: "int num = sv"
        have "extends n ?g1 s"
          unfolding extends_def
        proof (intro allI impI)
          fix p assume p: "inGrid n p" "cellAt ?g1 p \<noteq> Some 0"
          show "cellAt s p = cellAt ?g1 p"
          proof (cases "p = (row, col)")
            case True
            with sv show ?thesis unfolding eq [symmetric] by (simp add: c1)
          next
            case False
            with p extendsD [OF ex p(1)] show ?thesis by (simp add: c1)
          qed
        qed
        from "2.IH"(1) [OF inside v \<open>ok\<close> pg1 bs vs this] r False show False by simp
      qed
      with sv have next_ok: "\<exists>sv. cellAt s (row, col) = Some sv \<and> int (num + 1) \<le> sv" by auto
      have "\<not> fst (ok1, g')" using False by simp
      from "2.IH"(2) [OF inside v \<open>ok\<close> r this] pg bs vs ex ig empty next_ok
      have "\<exists>g'. solveCell g row col (num + 1) = Inr (True, g')"
        by (simp add: g' undone)
      with r v \<open>ok\<close> inside False g' undone show ?thesis
        by (simp add: solveCell.simps [of g row col num])
    qed
  qed
qed

section \<open>Concrete grids, hosts and runs\<close>

text \<open>
  A 4 by 4 grid without a solution whose defect shows only at the last cell: \<open>(3, 3)\<close>
  has 1, 2, 3 in its row and 4 in its column. The solver fills the cells before it, starting
  with 2 at \<open>(0, 0)\<close>, and has to take every placement back.
\<close>

definition lastCellBlocked :: grid where
  "lastCellBlocked = [[0, 0, 0, 4], [0, 0, 0, 0], [0, 0, 0, 0], [1, 2, 3, 0]]"

text \<open>
  A completely filled 4 by 4 grid that breaks every rule.
\<close>

definition allOnes :: grid where
  "allOnes = [[1, 1, 1, 1], [1, 1, 1, 1], [1, 1, 1, 1], [1, 1, 1, 1]]"

text \<open>
  6 by 6 grids holding a single 4, at \<open>(0, 3)\<close> and at \<open>(3, 4)\<close>.
\<close>

definition fourAt03 :: grid where
  "fourAt03 = [[0, 0, 0, 4, 0, 0], [0, 0, 0, 0, 0, 0], [0, 0, 0, 0, 0, 0],
               [0, 0, 0, 0, 0, 0], [0, 0, 0, 0, 0, 0], [0, 0, 0, 0, 0, 0]]"

definition fourAt34 :: grid where
  "fourAt34 = [[0, 0, 0, 0, 0, 0], [0, 0, 0, 0, 0, 0], [0, 0, 0, 0, 0, 0],
               [0, 0, 0, 0, 4, 0], [0, 0, 0, 0, 0, 0], [0, 0, 0, 0, 0, 0]]"

text \<open>
  The grid that \<^verbatim>\<open>createFallbackGrid\<close> builds for size 6.
\<close>

definition fallbackGrid6 :: grid where
  "fallbackGrid6 = [[1, 2, 3, 4, 5, 6], [3, 4, 5, 6, 1, 2], [6, 1, 2, 3, 4, 5],
                    [2, 3, 4, 5, 6, 1], [5, 6, 1, 2, 3, 4], [1, 2, 3, 4, 5, 6]]"

text \<open>
  A host whose clock stands still (every reading falls into the same millisecond) and
  whose random source makes every shuffle of \<open>1..4\<close> come out as \<open>2, 3, 4, 1\<close> and then
  puts the cells \<open>(1, 3)\<close>, \<open>(0, 1)\<close>, \<open>(1, 1)\<close>, \<open>(0, 3)\<close> first among the shuffled
  positions of a 4 by 4 grid.
\<close>

definition sampleDraws :: "nat list" where
  "sampleDraws = replicate 48 0 @ [15, 14, 13, 12, 11, 10, 9, 8, 0, 6, 2, 4, 3, 2, 1]"

definition sampleWorld :: world where
  "sampleWorld =
     \<lparr>clock = (\<lambda>k. 0), ticks = 0,
      random = (\<lambda>k. if k < length sampleDraws then sampleDraws ! k else 0), draws = 0\<rparr>"

text \<open>
  A host whose clock shows 6000 ms more at every reading, and one whose clock jumps by
  10000 ms at its sixth reading.
\<close>

definition stalledWorld :: world where
  "stalledWorld = \<lparr>clock = (\<lambda>k. 6000 * int k), ticks = 0, random = (\<lambda>k. 0), draws = 0\<rparr>"

definition jumpWorld :: world where
  "jumpWorld =
     \<lparr>clock = (\<lambda>k. if k < 5 then 0 else 10000), ticks = 0, random = (\<lambda>k. 0), draws = 0\<rparr>"

text \<open>
  \<^verbatim>\<open>generatePuzzle(1, 4)\<close> on a fresh generator in the first host, with the puzzle and
  the solution it returns and the grid the solver makes of that puzzle.
\<close>

definition sampleRun :: "error + puzzlePair \<times> generator \<times> world" where
  "sampleRun = generatePuzzle 1 4 (constructor, sampleWorld)"

definition samplePuzzle :: grid where
  "samplePuzzle = [[2, 0, 4, 0], [4, 0, 2, 0], [3, 2, 1, 4], [1, 4, 3, 2]]"

definition sampleSolution :: grid where
  "sampleSolution = [[2, 3, 4, 1], [4, 1, 2, 3], [3, 2, 1, 4], [1, 4, 3, 2]]"

definition sampleSolved :: grid where
  "sampleSolved = [[2, 1, 4, 3], [4, 3, 2, 1], [3, 2, 1, 4], [1, 4, 3, 2]]"

text \<open>
  \<^verbatim>\<open>generateComplete()\<close> after \<^verbatim>\<open>setSize(6)\<close> in the host with the 6000 ms steps.
\<close>

definition stalledRun6 :: "error + generator \<times> world" where
  "stalledRun6 = generateComplete (projr (setSize 6 constructor), stalledWorld)"

text \<open>
  A 2 by 2 grid with two empty cells, and a filled grid to take the hints from.
\<close>

definition hintGrid :: grid where
  "hintGrid = [[1, 0], [0, 2]]"

definition hintSolution :: grid where
  "hintSolution = [[1, 2], [2, 1]]"

text \<open>
  The removal fraction of a difficulty level as the specification gives it, to compare
  with \<open>toRemove\<close>.
\<close>

definition removalFraction :: "int \<Rightarrow> real" where
  "removalFraction difficulty =
     (if difficulty = 1 then 0.30 else if difficulty = 2 then 0.40
      else if difficulty = 3 then 0.50 else if difficulty = 4 then 0.60
      else if difficulty = 5 then 0.65 else 0.60)"

section \<open>What generatePuzzle returns\<close>

lemma fallbackPattern_4_valid: "validSolution 4 (fallbackPattern 4 2)"
  by code_simp

lemma fallbackPattern_9_valid: "validSolution 9 (fallbackPattern 9 3)"
  by code_simp

lemma fallbackPattern_6: "fallbackPattern 6 2 = fallbackGrid6"
  by code_simp

lemma setSize_boxSize:
  "setSize n this = Inr this1 \<Longrightarrow> n = 4 \<or> n = 6 \<Longrightarrow> this_boxSize this1 = 2"
  "setSize n this = Inr this1 \<Longrightarrow> n = 9 \<Longrightarrow> this_boxSize this1 = 3"
  by (auto simp: setSize_def split: if_splits)

text \<open>
  What \<^verbatim>\<open>generatePuzzle\<close> returns, for any positive size that \<^verbatim>\<open>setSize\<close> accepts.
\<close>

lemma generatePuzzle_result:
  assumes gen: "generatePuzzle difficulty n s = Inr (pp, this', wd')" and n: "0 < n"
  shows "\<exists>ps. pair_puzzle pp = removeCells (pair_solution pp) ps \<and> distinct ps \<and>
      set ps \<subseteq> set (scanOrder n) \<and> length ps = min (toRemove difficulty (n * n)) (n * n)"
    and "square n (pair_solution pp)" and "noEmpty n (pair_solution pp)"
    and "validSolution n (pair_solution pp) \<or>
         (\<exists>b. (n = 9 \<longrightarrow> b = 3) \<and> (n = 4 \<or> n = 6 \<longrightarrow> b = 2) \<and> pair_solution pp = fallbackPattern n b)"
proof -
  from gen obtain this1 where s1: "setSize n (fst s) = Inr this1"
    by (auto simp: generatePuzzle_def split: sum.splits)
  from setSize_result [OF s1 n] obtain h w where
    t1: "this_size this1 = n" "this_grid this1 = emptyGrid n"
    and fits: "boxFits n (this_boxSize this1) h w" by blast
  have sq1: "square n (this_grid (fst (this1, snd s)))"
    using t1 partialGrid_square [OF partialGrid_emptyGrid] by simp
  from generateAttempts_result [OF fits, of "(this1, snd s)" 0] t1 sq1
  obtain this2 w2 where g: "generateComplete (this1, snd s) = Inr (this2, w2)"
    and r: "this_solution this2 = this_grid this2" "square n (this_grid this2)"
      "noEmpty n (this_grid this2)"
      "validSolution n (this_grid this2) \<or> this_grid this2 = fallbackPattern n (this_boxSize this1)"
    by (auto simp: generateComplete_def)
  obtain sh w3 where sh: "shuffleArray (scanOrder n) w2 = (sh, w3)"
    by (cases "shuffleArray (scanOrder n) w2")
  from gen s1 g sh have pp: "pp = \<lparr>pair_puzzle = removeCells (this_grid this2)
        (take (toRemove difficulty (n * n)) sh), pair_solution = this_solution this2\<rparr>"
    by (auto simp: generatePuzzle_def)
  from shuffleArray_mset [of "scanOrder n" w2] sh have m: "mset sh = mset (scanOrder n)" by simp
  have d: "distinct sh" using mset_eq_imp_distinct_iff [OF m] by simp
  have st: "set sh = set (scanOrder n)" using mset_eq_setD [OF m] .
  have len: "length sh = n * n" using mset_eq_length [OF m] by (simp add: scanOrder_def)
  let ?ps = "take (toRemove difficulty (n * n)) sh"
  have "pair_puzzle pp = removeCells (pair_solution pp) ?ps \<and> distinct ?ps \<and>
      set ?ps \<subseteq> set (scanOrder n) \<and> length ?ps = min (toRemove difficulty (n * n)) (n * n)"
    using d st len set_take_subset [of "toRemove difficulty (n * n)" sh]
    by (simp add: pp r(1) min.commute del: set_scanOrder)
  then show "\<exists>ps. pair_puzzle pp = removeCells (pair_solution pp) ps \<and> distinct ps \<and>
      set ps \<subseteq> set (scanOrder n) \<and> length ps = min (toRemove difficulty (n * n)) (n * n)" ..
  show "square n (pair_solution pp)" "noEmpty n (pair_solution pp)"
    using r by (simp_all add: pp)
  show "validSolution n (pair_solution pp) \<or>
      (\<exists>b. (n = 9 \<longrightarrow> b = 3) \<and> (n = 4 \<or> n = 6 \<longrightarrow> b = 2) \<and> pair_solution pp = fallbackPattern n b)"
    using r(4) setSize_boxSize [OF s1] by (auto simp: pp r(1))
qed

lemma generatePuzzle_returns:
  assumes "n = 4 \<or> n = 6 \<or> n = 9"
  shows "\<exists>pp this' wd'. generatePuzzle difficulty n s = Inr (pp, this', wd')"
proof -
  from setSize_supported [OF assms] obtain this1 where s1: "setSize n (fst s) = Inr this1" by blast
  from assms have n: "0 < n" by auto
  from setSize_result [OF s1 n] obtain h w where
    t1: "this_size this1 = n" "this_grid this1 = emptyGrid n"
    and fits: "boxFits n (this_boxSize this1) h w" by blast
  have sq1: "square n (this_grid (fst (this1, snd s)))"
    using t1 partialGrid_square [OF partialGrid_emptyGrid] by simp
  from generateAttempts_result [OF fits, of "(this1, snd s)" 0] t1 sq1
  obtain this2 w2 where g: "generateComplete (this1, snd s) = Inr (this2, w2)"
    by (auto simp: generateComplete_def)
  with s1 show ?thesis
    by (cases "shuffleArray (scanOrder n) w2") (simp add: generatePuzzle_def)
qed

lemma generated_solution_valid:
  assumes gen: "generatePuzzle difficulty n s = Inr (pp, this', wd')"
    and n: "n = 4 \<or> n = 9 \<or> (n = 6 \<and> pair_solution pp \<noteq> fallbackGrid6)"
  shows "validSolution n (pair_solution pp)"
proof -
  from n have "0 < n" by auto
  from generatePuzzle_result(4) [OF gen this] n show ?thesis
    using fallbackPattern_4_valid fallbackPattern_9_valid fallbackPattern_6 by auto
qed

lemma sampleRun_value:
  "\<not> isl sampleRun" "pair_puzzle (fst (projr sampleRun)) = samplePuzzle"
  "pair_solution (fst (projr sampleRun)) = sampleSolution"
  by code_simp+

lemma sampleRun_eq:
  "generatePuzzle 1 4 (constructor, sampleWorld) =
     Inr (fst (projr sampleRun), fst (snd (projr sampleRun)), snd (snd (projr sampleRun)))"
  using sampleRun_value(1) by (simp add: sampleRun_def)

lemma partialGrid_removeCells:
  "partialGrid n h w g \<Longrightarrow> partialGrid n h w (removeCells g ps)"
  unfolding removeCells_def
  by (induction ps arbitrary: g) (simp_all add: partialGrid_erase)

lemma concat_square:
  assumes "square n g"
  shows "concat g = map (\<lambda>p. g ! fst p ! snd p) (scanOrder n)"
proof -
  from assms have len: "length g = n" and rows: "\<And>r. r < n \<Longrightarrow> length (g ! r) = n"
    by (auto simp: square_def)
  have "map (\<lambda>r. map (\<lambda>c. g ! r ! c) [0..<n]) [0..<n] = map (\<lambda>r. g ! r) [0..<n]"
    using rows by (auto simp: map_nth intro!: nth_equalityI)
  also have "\<dots> = g" using map_nth [of g] len by simp
  finally have "g = map (\<lambda>r. map (\<lambda>c. g ! r ! c) [0..<n]) [0..<n]" by simp
  then have "concat g = concat (map (\<lambda>r. map (\<lambda>c. g ! r ! c) [0..<n]) [0..<n])" by simp
  also have "\<dots> = map (\<lambda>p. g ! fst p ! snd p) (scanOrder n)"
    by (simp add: scanOrder_def product_concat_map map_concat comp_def)
  finally show ?thesis .
qed

lemma count_list_filter: "count_list xs a = length (filter (\<lambda>x. x = a) xs)"
  by (induction xs) auto

lemma zero_cells_square:
  assumes "square n g"
  shows "count_list (concat g) 0 = length (filter (\<lambda>p. cellAt g p = Some 0) (scanOrder n))"
proof -
  have "\<And>p. p \<in> set (scanOrder n) \<Longrightarrow> (g ! fst p ! snd p = 0) = (cellAt g p = Some 0)"
    by (auto simp: square_cellAt [OF assms] inGrid_def)
  then have "filter (\<lambda>p. g ! fst p ! snd p = 0) (scanOrder n) =
      filter (\<lambda>p. cellAt g p = Some 0) (scanOrder n)"
    by (intro filter_cong) simp_all
  then show ?thesis
    by (simp add: concat_square [OF assms] count_list_filter filter_map comp_def)
qed

lemma floor_fraction:
  "nat \<lfloor>real c * real a / real b\<rfloor> = (c * a) div b"
proof -
  have "real c * real a / real b = real (c * a) / real b" by simp
  then show ?thesis by (simp only: floor_divide_of_nat_eq nat_int)
qed

lemma toRemove_floor: "toRemove difficulty c = nat \<lfloor>real c * removalFraction difficulty\<rfloor>"
proof -
  have "removalFraction difficulty =
      (case (case removalPercentage difficulty of None \<Rightarrow> (60, 100) | Some q \<Rightarrow> q) of
         (num, den) \<Rightarrow> real num / real den)"
    by (simp add: removalFraction_def removalPercentage_def)
  then show ?thesis
    by (simp add: toRemove_def floor_fraction split: prod.splits)
qed

section \<open>The clock during a fill attempt\<close>

lemma shuffleLoop_clock:
  "shuffleLoop i xs wd = (ys, wd') \<Longrightarrow> clock wd' = clock wd \<and> ticks wd' = ticks wd"
proof (induction i arbitrary: xs wd)
  case 0
  then show ?case by simp
next
  case (Suc i)
  then show ?case by (auto simp: randomBelow_def dest!: Suc.IH)
qed

lemma shuffleArray_clock:
  "shuffleArray xs wd = (ys, wd') \<Longrightarrow> clock wd' = clock wd \<and> ticks wd' = ticks wd"
  unfolding shuffleArray_def by (rule shuffleLoop_clock)

lemma fill_clock:
  "fillGridRecursive n b row col st tmo gw = Inr r \<Longrightarrow> clock (snd (snd r)) = clock (snd gw)"
  "tryNumbers n b row col st tmo nums gw = Inr r \<Longrightarrow> clock (snd (snd r)) = clock (snd gw)"
proof (induction n b row col st tmo gw and n b row col st tmo nums gw arbitrary: r and r
    rule: fillGridRecursive_tryNumbers.induct)
  case (1 n b row col st tmo g wd)
  obtain now w1 where dn: "dateNow wd = (now, w1)" by (cases "dateNow wd")
  then have c1: "clock w1 = clock wd" by (auto simp: dateNow_def)
  note run = "1.prems" [unfolded fillGridRecursive.simps [of n b row col st tmo g wd] dn, simplified]
  show ?case
  proof (cases "tmo < now - st")
    case True
    with run c1 show ?thesis by auto
  next
    case False
    note in_time = False
    show ?thesis
    proof (cases "n < row \<or> n < col")
      case True
      with run in_time show ?thesis by simp
    next
      case False
      note guard = False
      show ?thesis
      proof (cases "row = n")
        case True
        with run in_time guard c1 show ?thesis by auto
      next
        case False
        note row = False
        show ?thesis
        proof (cases "col = n")
          case True
          with run in_time guard row have "fillGridRecursive n b (row + 1) 0 st tmo (g, w1) = Inr r"
            by simp
          from "1.IH"(1) [OF dn [symmetric] in_time guard row True this] c1 show ?thesis by simp
        next
          case False
          note col = False
          from run in_time guard row col have present: "\<not> length g \<le> row"
            by (auto split: if_splits)
          show ?thesis
          proof (cases "cell g row col = Some 0")
            case False
            with run in_time guard row col present
            have "fillGridRecursive n b row (col + 1) st tmo (g, w1) = Inr r" by simp
            from "1.IH"(2) [OF dn [symmetric] in_time guard row col present False this] c1
            show ?thesis by simp
          next
            case True
            obtain numbers w2 where sh: "shuffleArray (map (\<lambda>i. int i + 1) [0..<n]) w1 = (numbers, w2)"
              by (cases "shuffleArray (map (\<lambda>i. int i + 1) [0..<n]) w1")
            with run in_time guard row col present True
            have t: "tryNumbers n b row col st tmo numbers (g, w2) = Inr r" by simp
            have "\<not> cell g row col \<noteq> Some 0" using True by simp
            from "1.IH"(3) [OF dn [symmetric] in_time guard row col present this sh [symmetric] t]
              shuffleArray_clock [OF sh] c1 show ?thesis by simp
          qed
        qed
      qed
    qed
  qed
next
  case (2 n b row col st tmo g wd)
  then show ?case by auto
next
  case (3 n b row col st tmo num rest g wd)
  from "3.prems" obtain ok where v: "isValid n b g row col num = Inr ok"
    by (cases "isValid n b g row col num") simp_all
  show ?case
  proof (cases ok)
    case False
    with "3.prems" v have "tryNumbers n b row col st tmo rest (g, wd) = Inr r" by simp
    from "3.IH"(3) [OF v False this] show ?thesis .
  next
    case True
    with "3.prems" v obtain r1 where
      r1: "fillGridRecursive n b row (col + 1) st tmo (setCell g row col num, wd) = Inr r1"
      by (cases "fillGridRecursive n b row (col + 1) st tmo (setCell g row col num, wd)") simp_all
    from "3.IH"(1) [OF v True r1] have c1: "clock (snd (snd r1)) = clock wd" by simp
    show ?thesis
    proof (cases "fst r1")
      case True
      with "3.prems" v \<open>ok\<close> r1 c1 show ?thesis by auto
    next
      case False
      with "3.prems" v \<open>ok\<close> r1 have "tryNumbers n b row col st tmo rest
          (setCell (fst (snd r1)) row col 0, snd (snd r1)) = Inr r" by simp
      from "3.IH"(2) [OF v \<open>ok\<close> r1 False this] c1 show ?thesis by simp
    qed
  qed
qed

lemma fill_aborts:
  "\<forall>j \<ge> k. tmo < clock (snd gw) j - st \<Longrightarrow>
     fillGridRecursive n b row col st tmo gw = Inr r \<Longrightarrow> k < ticks (snd (snd r)) \<Longrightarrow> \<not> fst r"
  "\<forall>j \<ge> k. tmo < clock (snd gw) j - st \<Longrightarrow>
     tryNumbers n b row col st tmo nums gw = Inr r \<Longrightarrow> k < ticks (snd (snd r)) \<Longrightarrow> \<not> fst r"
proof (induction n b row col st tmo gw and n b row col st tmo nums gw arbitrary: r and r
    rule: fillGridRecursive_tryNumbers.induct)
  case (1 n b row col st tmo g wd)
  obtain now w1 where dn: "dateNow wd = (now, w1)" by (cases "dateNow wd")
  then have w1: "clock w1 = clock wd" "ticks w1 = Suc (ticks wd)" "now = clock wd (ticks wd)"
    by (auto simp: dateNow_def)
  from "1.prems"(1) have late: "\<forall>j \<ge> k. tmo < clock wd j - st" by simp
  then have late1: "\<forall>j \<ge> k. tmo < clock (snd (g, w1)) j - st" using w1 by simp
  note run = "1.prems"(2) [unfolded fillGridRecursive.simps [of n b row col st tmo g wd] dn, simplified]
  show ?case
  proof (cases "tmo < now - st")
    case True
    with run show ?thesis by auto
  next
    case False
    note in_time = False
    with late w1 have early: "ticks wd < k" by (metis not_le_imp_less)
    show ?thesis
    proof (cases "n < row \<or> n < col")
      case True
      with run in_time show ?thesis by simp
    next
      case False
      note guard = False
      show ?thesis
      proof (cases "row = n")
        case True
        with run in_time guard have "r = (True, g, w1)" by auto
        with "1.prems"(3) early w1 show ?thesis by simp
      next
        case False
        note row = False
        show ?thesis
        proof (cases "col = n")
          case True
          with run in_time guard row have "fillGridRecursive n b (row + 1) 0 st tmo (g, w1) = Inr r"
            by simp
          from "1.IH"(1) [OF dn [symmetric] in_time guard row True late1 this "1.prems"(3)]
          show ?thesis .
        next
          case False
          note col = False
          from run in_time guard row col have present: "\<not> length g \<le> row"
            by (auto split: if_splits)
          show ?thesis
          proof (cases "cell g row col = Some 0")
            case False
            with run in_time guard row col present
            have "fillGridRecursive n b row (col + 1) st tmo (g, w1) = Inr r" by simp
            from "1.IH"(2) [OF dn [symmetric] in_time guard row col present False late1 this
                "1.prems"(3)]
            show ?thesis .
          next
            case True
            obtain numbers w2 where sh: "shuffleArray (map (\<lambda>i. int i + 1) [0..<n]) w1 = (numbers, w2)"
              by (cases "shuffleArray (map (\<lambda>i. int i + 1) [0..<n]) w1")
            with run in_time guard row col present True
            have t: "tryNumbers n b row col st tmo numbers (g, w2) = Inr r" by simp
            have ne: "\<not> cell g row col \<noteq> Some 0" using True by simp
            have late2: "\<forall>j \<ge> k. tmo < clock (snd (g, w2)) j - st"
              using late w1 shuffleArray_clock [OF sh] by simp
            from "1.IH"(3) [OF dn [symmetric] in_time guard row col present ne sh [symmetric] late2 t
                "1.prems"(3)]
            show ?thesis .
          qed
        qed
      qed
    qed
  qed
next
  case (2 n b row col st tmo g wd)
  then show ?case by auto
next
  case (3 n b row col st tmo num rest g wd)
  from "3.prems"(2) obtain ok where v: "isValid n b g row col num = Inr ok"
    by (cases "isValid n b g row col num") simp_all
  show ?case
  proof (cases ok)
    case False
    with "3.prems"(2) v have "tryNumbers n b row col st tmo rest (g, wd) = Inr r" by simp
    from "3.IH"(3) [OF v False "3.prems"(1) this "3.prems"(3)] show ?thesis .
  next
    case True
    with "3.prems"(2) v obtain r1 where
      r1: "fillGridRecursive n b row (col + 1) st tmo (setCell g row col num, wd) = Inr r1"
      by (cases "fillGridRecursive n b row (col + 1) st tmo (setCell g row col num, wd)") simp_all
    from "3.prems"(1) have late1: "\<forall>j \<ge> k. tmo < clock (snd (setCell g row col num, wd)) j - st"
      by simp
    show ?thesis
    proof (cases "fst r1")
      case True
      with "3.prems"(2) v \<open>ok\<close> r1 have "r = r1" by simp
      with "3.IH"(1) [OF v \<open>ok\<close> late1 r1] "3.prems"(3) True show ?thesis by simp
    next
      case False
      with "3.prems"(2) v \<open>ok\<close> r1 have t: "tryNumbers n b row col st tmo rest
          (setCell (fst (snd r1)) row col 0, snd (snd r1)) = Inr r" by simp
      from fill_clock(1) [OF r1] "3.prems"(1)
      have late2: "\<forall>j \<ge> k. tmo < clock (snd (setCell (fst (snd r1)) row col 0, snd (snd r1))) j - st"
        by simp
      from "3.IH"(2) [OF v \<open>ok\<close> r1 False late2 t "3.prems"(3)] show ?thesis .
    qed
  qed
qed

lemma jump_run:
  "\<not> isl (fillGrid 4 2 (emptyGrid 4, jumpWorld))"
  "5 < ticks (snd (snd (projr (fillGrid 4 2 (emptyGrid 4, jumpWorld)))))"
  "fst (snd (projr (fillGrid 4 2 (emptyGrid 4, jumpWorld)))) = emptyGrid 4"
  by code_simp+

section \<open>Empty cells of a square grid\<close>

lemma no_zero_square:
  assumes "square n g"
  shows "(\<forall>row \<in> set g. 0 \<notin> set row) \<longleftrightarrow> filter (isEmptyAt g) (scanOrder n) = []"
proof -
  from assms have len: "length g = n" and rows: "\<And>row. row \<in> set g \<Longrightarrow> length row = n"
    by (auto simp: square_def)
  have "(\<forall>row \<in> set g. 0 \<notin> set row) \<longleftrightarrow> (\<forall>r < n. \<forall>c < n. g ! r ! c \<noteq> 0)"
  proof
    assume a: "\<forall>row \<in> set g. 0 \<notin> set row"
    show "\<forall>r < n. \<forall>c < n. g ! r ! c \<noteq> 0"
    proof (intro allI impI)
      fix r c assume "r < n" "c < n"
      with len rows have "g ! r \<in> set g" "g ! r ! c \<in> set (g ! r)" by simp_all
      with a show "g ! r ! c \<noteq> 0" by metis
    qed
  next
    assume a: "\<forall>r < n. \<forall>c < n. g ! r ! c \<noteq> 0"
    show "\<forall>row \<in> set g. 0 \<notin> set row"
    proof (intro ballI notI)
      fix row assume row: "row \<in> set g" "0 \<in> set row"
      then obtain r where r: "r < n" "row = g ! r" using len by (metis in_set_conv_nth)
      from row(2) rows [OF row(1)] obtain c where "c < n" "row ! c = 0"
        by (metis in_set_conv_nth)
      with a r show False by auto
    qed
  qed
  also have "\<dots> \<longleftrightarrow> (\<forall>p \<in> set (scanOrder n). \<not> isEmptyAt g p)"
    using square_cellAt [OF assms] by (auto simp: isEmptyAt_def cellAt_def inGrid_def)
  also have "\<dots> \<longleftrightarrow> filter (isEmptyAt g) (scanOrder n) = []"
    by (simp add: filter_empty_conv del: set_scanOrder)
  finally show ?thesis .
qed

section \<open>The claims\<close>

text \<open>
  Claim C1. The grid that \<^verbatim>\<open>generateComplete\<close> returns is a valid solution whenever a
  fill attempt succeeds, and whenever the size is 4 or 9 (\<open>generateAttempts_result\<close>,
  \<open>generated_solution_valid\<close>). For size 6 it is not when all ten attempts time out: in a
  host whose clock shows 6000 ms more at every reading each attempt fails at its first
  check, after 20 readings the fallback grid is returned as grid and as solution, and
  that grid is not a valid solution.
\<close>

theorem stalled_generation_returns_invalid_grid:
  "\<not> isl (setSize 6 constructor) \<and> \<not> isl stalledRun6 \<and>
   this_grid (fst (projr stalledRun6)) = fallbackGrid6 \<and>
   this_solution (fst (projr stalledRun6)) = fallbackGrid6 \<and>
   ticks (snd (projr stalledRun6)) = 20 \<and>
   \<not> validSolution 6 (this_solution (fst (projr stalledRun6)))"
  by code_simp

theorem stalled_generation_returns_invalid_grid_witness:
  "this_solution (fst (projr stalledRun6)) = fallbackGrid6 \<and> \<not> validSolution 6 fallbackGrid6"
  using stalled_generation_returns_invalid_grid by auto

text \<open>
  Claim C2. For size 6, \<^verbatim>\<open>setSize\<close> stores the box size 2 and the shift pattern of
  \<^verbatim>\<open>createFallbackGrid\<close> repeats the first row in the last one: the fallback grid is not
  a valid solution (the first column holds 1 twice, the first box holds 3 twice). For
  sizes 4 and 9 the pattern is valid (\<open>fallbackPattern_4_valid\<close>, \<open>fallbackPattern_9_valid\<close>).
\<close>

theorem fallback_6_invalid:
  "(case setSize 6 constructor of
      Inl e \<Rightarrow> False
    | Inr this \<Rightarrow>
        this_grid (createFallbackGrid this) = fallbackGrid6 \<and>
        \<not> validSolution 6 (this_grid (createFallbackGrid this)))"
  by code_simp

theorem fallback_6_invalid_witness:
  "setSize 6 constructor =
     Inr \<lparr>this_size = 6, this_boxSize = 2, this_grid = emptyGrid 6, this_solution = emptyGrid 6\<rparr> \<and>
   \<not> validSolution 6 fallbackGrid6"
proof -
  have s: "setSize 6 constructor =
     Inr \<lparr>this_size = 6, this_boxSize = 2, this_grid = emptyGrid 6, this_solution = emptyGrid 6\<rparr>"
    by (simp add: setSize_def constructor_def)
  from fallback_6_invalid show ?thesis unfolding s by auto
qed

text \<open>
  Claim C3, as stated, fails already at the lowest removal fraction:
  \<^verbatim>\<open>generatePuzzle(1, 4)\<close> can return a puzzle whose four removed cells admit two
  completions, and \<^verbatim>\<open>solvePuzzle\<close>, trying 1 before 3, returns the one that is not the
  paired solution.
\<close>

theorem solver_need_not_return_the_paired_solution:
  "generatePuzzle 1 4 (constructor, sampleWorld) =
     Inr (fst (projr sampleRun), fst (snd (projr sampleRun)), snd (snd (projr sampleRun))) \<and>
   toRemove 1 (4 * 4) = 4 \<and>
   pair_puzzle (fst (projr sampleRun)) = samplePuzzle \<and>
   pair_solution (fst (projr sampleRun)) = sampleSolution \<and>
   solvePuzzle samplePuzzle = Inr (True, sampleSolved) \<and>
   sampleSolved \<noteq> sampleSolution"
proof -
  have "toRemove 1 (4 * 4) = 4" by code_simp
  moreover have "solvePuzzle samplePuzzle = Inr (True, sampleSolved)" by code_simp
  moreover have "sampleSolved \<noteq> sampleSolution" by code_simp
  ultimately show ?thesis using sampleRun_eq sampleRun_value by simp
qed

text \<open>
  Claim C3, amended. For a puzzle returned by \<^verbatim>\<open>generatePuzzle\<close> for size 4 or 9, and
  for size 6 unless the paired solution is the fallback grid, \<^verbatim>\<open>solvePuzzle\<close> on the puzzle
  returns true, and the grid it leaves is a valid solution that keeps every given cell of
  the puzzle.
\<close>

theorem generated_puzzle_solvable:
  assumes gen: "generatePuzzle difficulty n s = Inr (pp, this', wd')"
    and n: "n = 4 \<or> n = 9 \<or> (n = 6 \<and> pair_solution pp \<noteq> fallbackGrid6)"
  shows "\<exists>g'. solvePuzzle (pair_puzzle pp) = Inr (True, g') \<and> validSolution n g' \<and>
     (\<forall>r c v. cell (pair_puzzle pp) r c = Some v \<and> v \<noteq> 0 \<longrightarrow> cell g' r c = Some v)"
proof -
  from n have n0: "0 < n" by auto
  have vs: "validSolution n (pair_solution pp)" by (rule generated_solution_valid [OF gen n])
  then obtain h w where bs: "boxShape n = Some (h, w)"
    by (cases "boxShape n") (auto simp: validSolution_def)
  from valid_imp_partial [OF vs bs n0] have psol: "partialGrid n h w (pair_solution pp)" ..
  from generatePuzzle_result(1,2) [OF gen n0] obtain ps where
    ps: "pair_puzzle pp = removeCells (pair_solution pp) ps"
    and sq: "square n (pair_solution pp)" by blast
  have pp: "partialGrid n h w (pair_puzzle pp)"
    unfolding ps by (rule partialGrid_removeCells [OF psol])
  have ex: "extends n (pair_puzzle pp) (pair_solution pp)"
    unfolding extends_def by (simp add: ps cellAt_removeCells [OF sq])
  from solve_complete(1) [OF pp bs n0 vs ex] obtain g' where
    run: "solvePuzzle (pair_puzzle pp) = Inr (True, g')" ..
  with solve_sound(1) [OF pp bs n0] have g': "partialGrid n h w g'" "noEmpty n g'"
    "extends n (pair_puzzle pp) g'" by auto
  have "validSolution n g'" by (rule partial_full_imp_valid [OF g'(1,2) bs n0])
  moreover have "cell g' r c = Some v" if "cell (pair_puzzle pp) r c = Some v" "v \<noteq> 0" for r c v
  proof -
    from that have c: "cellAt (pair_puzzle pp) (r, c) = Some v" by (simp add: cellAt_def)
    with square_cellAt [OF partialGrid_square [OF pp], of "(r, c)"] have "inGrid n (r, c)"
      by (auto split: if_splits)
    from extendsD [OF g'(3) this] c that(2) show ?thesis by (simp add: cellAt_def)
  qed
  ultimately show ?thesis using run by blast
qed

theorem generated_puzzle_solvable_witness:
  "solvePuzzle (pair_puzzle (fst (projr sampleRun))) = Inr (True, sampleSolved) \<and>
   validSolution 4 sampleSolved"
proof -
  have run: "solvePuzzle (pair_puzzle (fst (projr sampleRun))) = Inr (True, sampleSolved)"
    unfolding sampleRun_value by code_simp
  from generated_puzzle_solvable [OF sampleRun_eq] run show ?thesis by auto
qed

text \<open>
  Claim C4. Whenever \<^verbatim>\<open>solvePuzzle(grid)\<close> returns false, the grid is exactly as it was
  before the call: backtracking has undone every placement it made.
\<close>

theorem solvePuzzle_false_restores_grid:
  "solvePuzzle g = Inr (False, g') \<Longrightarrow> g' = g"
  by (rule solve_restores(1))

theorem solvePuzzle_false_restores_grid_witness:
  "solvePuzzle lastCellBlocked = Inr (False, lastCellBlocked) \<and>
   firstEmpty lastCellBlocked = Some (0, 0) \<and>
   isValidForGrid lastCellBlocked 0 0 2 = Inr True \<and>
   setCell lastCellBlocked 0 0 2 \<noteq> lastCellBlocked \<and>
   solvePuzzle (setCell lastCellBlocked 0 0 2) = Inr (False, setCell lastCellBlocked 0 0 2)"
proof -
  have run: "solvePuzzle lastCellBlocked = Inr (False, snd (projr (solvePuzzle lastCellBlocked)))"
    by code_simp
  have placed: "firstEmpty lastCellBlocked = Some (0, 0) \<and>
      isValidForGrid lastCellBlocked 0 0 2 = Inr True \<and>
      setCell lastCellBlocked 0 0 2 \<noteq> lastCellBlocked \<and>
      solvePuzzle (setCell lastCellBlocked 0 0 2) = Inr (False, setCell lastCellBlocked 0 0 2)"
    by code_simp
  from solvePuzzle_false_restores_grid [OF run] run placed show ?thesis by simp
qed

text \<open>
  Claim C5. For the sizes 4, 6 and 9 and every difficulty, the puzzle returned by
  \<^verbatim>\<open>generatePuzzle\<close> has exactly \<open>min (floor (N * N * f d)) (N * N)\<close> cells that hold
  0, where \<open>f\<close> is the removal fraction of the difficulty \<open>d\<close>.
\<close>

theorem removal_count:
  assumes gen: "generatePuzzle difficulty n s = Inr (pp, this', wd')"
    and n: "n = 4 \<or> n = 6 \<or> n = 9"
  shows "count_list (concat (pair_puzzle pp)) 0 =
     min (nat \<lfloor>real (n * n) * removalFraction difficulty\<rfloor>) (n * n)"
proof -
  from n have n0: "0 < n" by auto
  from generatePuzzle_result(1,2,3) [OF gen n0] obtain ps where
    ps: "pair_puzzle pp = removeCells (pair_solution pp) ps" "distinct ps"
      "set ps \<subseteq> set (scanOrder n)" "length ps = min (toRemove difficulty (n * n)) (n * n)"
    and sq: "square n (pair_solution pp)" and full: "noEmpty n (pair_solution pp)" by blast
  have sqp: "square n (pair_puzzle pp)" unfolding ps(1) by (rule square_removeCells [OF sq])
  have "\<And>p. p \<in> set (scanOrder n) \<Longrightarrow> (cellAt (pair_puzzle pp) p = Some 0) = (p \<in> set ps)"
  proof -
    fix p assume "p \<in> set (scanOrder n)"
    then have ig: "inGrid n p" by (auto simp: inGrid_def)
    with noEmptyD [OF full ig] show "(cellAt (pair_puzzle pp) p = Some 0) = (p \<in> set ps)"
      by (simp add: ps(1) cellAt_removeCells [OF sq])
  qed
  then have "filter (\<lambda>p. cellAt (pair_puzzle pp) p = Some 0) (scanOrder n) =
      filter (\<lambda>p. p \<in> set ps) (scanOrder n)"
    by (intro filter_cong) simp_all
  then have "count_list (concat (pair_puzzle pp)) 0 = length (filter (\<lambda>p. p \<in> set ps) (scanOrder n))"
    by (simp add: zero_cells_square [OF sqp])
  also have "\<dots> = card ({p. p \<in> set ps} \<inter> set (scanOrder n))"
    by (rule distinct_length_filter) simp
  also have "{p. p \<in> set ps} \<inter> set (scanOrder n) = set ps" using ps(3) by blast
  also have "card (set ps) = length ps" using ps(2) by (rule distinct_card)
  finally show ?thesis using ps(4) by (simp only: toRemove_floor)
qed

theorem removal_count_witness:
  "count_list (concat (pair_puzzle (fst (projr sampleRun)))) 0 = 4 \<and>
   min (nat \<lfloor>real (4 * 4 :: nat) * removalFraction 1\<rfloor>) (4 * 4) = 4"
proof -
  have "min (nat \<lfloor>real (4 * 4 :: nat) * removalFraction 1\<rfloor>) (4 * 4) = 4"
    by (simp add: removalFraction_def)
  with removal_count [OF sampleRun_eq] show ?thesis by simp
qed

text \<open>
  Claim C6. Every cell of the returned puzzle that is not 0 holds the value of the same
  cell of the returned solution.
\<close>

theorem puzzle_cells_agree_with_solution:
  assumes gen: "generatePuzzle difficulty n s = Inr (pp, this', wd')" and n: "0 < n"
    and c: "cell (pair_puzzle pp) r c = Some v" and v: "v \<noteq> 0"
  shows "cell (pair_solution pp) r c = Some v"
proof -
  from generatePuzzle_result(1,2) [OF gen n] obtain ps where
    ps: "pair_puzzle pp = removeCells (pair_solution pp) ps"
    and sq: "square n (pair_solution pp)" by blast
  from c have "cellAt (removeCells (pair_solution pp) ps) (r, c) = Some v"
    by (simp add: cellAt_def ps)
  with v have "cellAt (pair_solution pp) (r, c) = Some v"
    by (simp add: cellAt_removeCells [OF sq] split: if_splits)
  then show ?thesis by (simp add: cellAt_def)
qed

theorem puzzle_cells_agree_with_solution_witness:
  "cell (pair_puzzle (fst (projr sampleRun))) 2 3 = Some 4 \<and>
   cell (pair_solution (fst (projr sampleRun))) 2 3 = Some 4"
proof -
  have c: "cell (pair_puzzle (fst (projr sampleRun))) 2 3 = Some 4"
    by (simp add: sampleRun_value samplePuzzle_def cell_def)
  from puzzle_cells_agree_with_solution [OF sampleRun_eq _ c] c show ?thesis by simp
qed

text \<open>
  Claim C7. On square grids of the same size, \<^verbatim>\<open>getHint\<close> returns \<^verbatim>\<open>null\<close> exactly
  when the current grid has no cell holding 0; otherwise it returns the position of a cell
  that holds 0 in the current grid together with the solution's value there; neither
  array is changed.
\<close>

theorem getHint_correct:
  assumes cur: "square n currentGrid" and sol: "square n solution"
  shows "\<exists>h wd'. getHint currentGrid solution wd = Inr (h, (currentGrid, solution), wd') \<and>
     (h = None \<longleftrightarrow> (\<forall>row \<in> set currentGrid. 0 \<notin> set row)) \<and>
     (\<forall>x. h = Some x \<longrightarrow>
        hint_row x < n \<and> hint_col x < n \<and> currentGrid ! hint_row x ! hint_col x = 0 \<and>
        hint_value x = Some (solution ! hint_row x ! hint_col x))"
proof -
  from cur sol have len: "length currentGrid = n" "length solution = n" by (simp_all add: square_def)
  let ?cells = "filter (isEmptyAt currentGrid) (scanOrder n)"
  note nz = no_zero_square [OF cur]
  show ?thesis
  proof (cases ?cells)
    case Nil
    with nz len show ?thesis by (simp add: getHint_def)
  next
    case (Cons p ps)
    obtain i wd' where rb: "randomBelow (length (p # ps)) wd = (i, wd')"
      by (cases "randomBelow (length (p # ps)) wd")
    then have "i < length (p # ps)" by (auto simp: randomBelow_def)
    then have "(p # ps) ! i \<in> set ?cells" unfolding Cons by (rule nth_mem)
    then have e: "isEmptyAt currentGrid ((p # ps) ! i)" and ig: "inGrid n ((p # ps) ! i)"
      by (auto simp: inGrid_def)
    obtain row col where rc: "(p # ps) ! i = (row, col)" by (cases "(p # ps) ! i")
    from e ig rc have props: "row < n" "col < n" "currentGrid ! row ! col = 0"
      using square_cellAt [OF cur, of "(row, col)"]
      by (auto simp: isEmptyAt_def inGrid_def cellAt_def)
    from props sol have val: "cell solution row col = Some (solution ! row ! col)"
      using square_cellAt [OF sol, of "(row, col)"] by (simp add: cellAt_def inGrid_def)
    have "getHint currentGrid solution wd =
        Inr (Some \<lparr>hint_row = row, hint_col = col, hint_value = cell solution row col\<rparr>,
             (currentGrid, solution), wd')"
      using Cons rb rc props len by (simp add: getHint_def)
    moreover have "\<not> (\<forall>row \<in> set currentGrid. 0 \<notin> set row)" using nz Cons by simp
    ultimately show ?thesis using props val by simp
  qed
qed

theorem getHint_correct_witness:
  "getHint hintGrid hintSolution sampleWorld =
     Inr (Some \<lparr>hint_row = 0, hint_col = 1, hint_value = Some 2\<rparr>, (hintGrid, hintSolution),
          snd (snd (projr (getHint hintGrid hintSolution sampleWorld)))) \<and>
   getHint hintSolution hintSolution sampleWorld = Inr (None, (hintSolution, hintSolution), sampleWorld)"
proof -
  have sq: "square 2 hintGrid" "square 2 hintSolution"
    by (simp_all add: square_def hintGrid_def hintSolution_def)
  have a: "fst (projr (getHint hintGrid hintSolution sampleWorld)) =
      Some \<lparr>hint_row = 0, hint_col = 1, hint_value = Some 2\<rparr>"
    by code_simp
  have b: "\<forall>row \<in> set hintSolution. 0 \<notin> set row" by (simp add: hintSolution_def)
  from getHint_correct [OF sq, of sampleWorld] a
  have 1: "getHint hintGrid hintSolution sampleWorld =
     Inr (Some \<lparr>hint_row = 0, hint_col = 1, hint_value = Some 2\<rparr>, (hintGrid, hintSolution),
          snd (snd (projr (getHint hintGrid hintSolution sampleWorld))))" by auto
  from getHint_correct [OF sq(2) sq(2), of sampleWorld] b
  have 2: "getHint hintSolution hintSolution sampleWorld = Inr (None, (hintSolution, hintSolution), sampleWorld)"
    by (auto simp: getHint_def split: list.splits prod.splits if_splits)
  from 1 2 show ?thesis ..
qed

text \<open>
  Claim C8. On a 6 by 6 grid, placing 4 at \<open>(1, 4)\<close> is rejected when the only 4 is at
  \<open>(0, 3)\<close>, in the same 2 by 3 box but in another row and column, and it is rejected when
  the only 4 is at \<open>(3, 4)\<close>, in the same column but in another row and box. Both
  validators agree, the checks that do not apply find nothing, and on the empty grid
  the placement is accepted.
\<close>

theorem box_and_column_checks_independent:
  "isValidForGrid fourAt03 1 4 4 = Inr False \<and> isValid 6 2 fourAt03 1 4 4 = Inr False \<and>
   anyCellEquals fourAt03 (map (\<lambda>x. (1, x)) [0..<6]) 4 = Inr False \<and>
   anyCellEquals fourAt03 (map (\<lambda>x. (x, 4)) [0..<6]) 4 = Inr False \<and>
   isValidForGrid fourAt34 1 4 4 = Inr False \<and> isValid 6 2 fourAt34 1 4 4 = Inr False \<and>
   anyCellEquals fourAt34 (map (\<lambda>x. (1, x)) [0..<6]) 4 = Inr False \<and>
   anyCellEquals fourAt34 (boxCells ((1 div 2) * 2) ((4 div 3) * 3) 2 3) 4 = Inr False \<and>
   isValidForGrid (emptyGrid 6) 1 4 4 = Inr True \<and> isValid 6 2 (emptyGrid 6) 1 4 4 = Inr True"
  by code_simp

text \<open>
  Claim C9. A call of \<^verbatim>\<open>fillGridRecursive\<close> that reads the clock more than 5000 ms
  after the start time returns false at once and leaves the grid as it is. If from some
  reading on the clock stays more than 5000 ms past the start of an attempt, an attempt
  that gets as far as that reading fails as a whole.
\<close>

theorem fill_attempt_timeout:
  "(5000 < clock wd (ticks wd) - startTime \<longrightarrow>
      fillGridRecursive n b row col startTime 5000 (g, wd)
        = Inr (False, g, wd\<lparr>ticks := Suc (ticks wd)\<rparr>)) \<and>
   (fillGrid n b (g, wd) = Inr (ok, g', wd') \<and>
      (\<forall>j \<ge> k. 5000 < clock wd j - clock wd (ticks wd)) \<and> k < ticks wd' \<longrightarrow> \<not> ok)"
proof (intro conjI impI)
  assume "5000 < clock wd (ticks wd) - startTime"
  then show "fillGridRecursive n b row col startTime 5000 (g, wd)
      = Inr (False, g, wd\<lparr>ticks := Suc (ticks wd)\<rparr>)"
    by (simp add: fillGridRecursive.simps [of n b row col startTime 5000 g wd] dateNow_def)
next
  assume a: "fillGrid n b (g, wd) = Inr (ok, g', wd') \<and>
      (\<forall>j \<ge> k. 5000 < clock wd j - clock wd (ticks wd)) \<and> k < ticks wd'"
  let ?w1 = "wd\<lparr>ticks := Suc (ticks wd)\<rparr>"
  from a have run: "fillGridRecursive n b 0 0 (clock wd (ticks wd)) 5000 (g, ?w1) = Inr (ok, g', wd')"
    by (simp add: fillGrid_def dateNow_def)
  from a have late: "\<forall>j \<ge> k. 5000 < clock (snd (g, ?w1)) j - clock wd (ticks wd)" by simp
  from fill_aborts(1) [OF late run] a show "\<not> ok" by simp
qed

theorem fill_attempt_timeout_witness:
  "fillGridRecursive 6 2 0 0 0 5000 (emptyGrid 6, stalledWorld\<lparr>ticks := 1\<rparr>)
     = Inr (False, emptyGrid 6, stalledWorld\<lparr>ticks := 2\<rparr>) \<and>
   \<not> fst (projr (fillGrid 4 2 (emptyGrid 4, jumpWorld))) \<and>
   fst (snd (projr (fillGrid 4 2 (emptyGrid 4, jumpWorld)))) = emptyGrid 4"
proof -
  let ?run = "projr (fillGrid 4 2 (emptyGrid 4, jumpWorld))"
  have a: "5000 < clock (stalledWorld\<lparr>ticks := 1\<rparr>) (ticks (stalledWorld\<lparr>ticks := 1\<rparr>)) - 0"
    by (simp add: stalledWorld_def)
  have b: "\<forall>j \<ge> 5. 5000 < clock jumpWorld j - clock jumpWorld (ticks jumpWorld)"
    by (simp add: jumpWorld_def)
  from jump_run(1) have d: "fillGrid 4 2 (emptyGrid 4, jumpWorld) =
      Inr (fst ?run, fst (snd ?run), snd (snd ?run))" by simp
  from fill_attempt_timeout [of "stalledWorld\<lparr>ticks := 1\<rparr>" 0 6 2 0 0 "emptyGrid 6"
      "fst ?run" "fst (snd ?run)" "snd (snd ?run)" 5] a
  have 1: "fillGridRecursive 6 2 0 0 0 5000 (emptyGrid 6, stalledWorld\<lparr>ticks := 1\<rparr>)
     = Inr (False, emptyGrid 6, stalledWorld\<lparr>ticks := 2\<rparr>)"
    by (simp add: stalledWorld_def)
  from fill_attempt_timeout [of jumpWorld 0 4 2 0 0 "emptyGrid 4"
      "fst ?run" "fst (snd ?run)" "snd (snd ?run)" 5] b jump_run(2) d
  have 2: "\<not> fst ?run" by blast
  from 1 2 jump_run(3) show ?thesis by simp
qed

text \<open>
  Claim C10. On a grid without any zero-valued cell \<^verbatim>\<open>solvePuzzle\<close> returns true and
  leaves the grid as it is, whether or not the grid obeys the Sudoku rules: filled cells
  are never validated again. The witness is a grid of ones.
\<close>

theorem solvePuzzle_full_grid:
  assumes "\<forall>row \<in> set g. 0 \<notin> set row"
  shows "solvePuzzle g = Inr (True, g)"
proof -
  have "firstEmpty g = None"
    unfolding firstEmpty_None_iff
  proof (intro allI impI)
    fix r c assume "r < length g" "c < length g"
    show "cell g r c \<noteq> Some 0"
    proof
      assume "cell g r c = Some 0"
      then have "c < length (g ! r)" "g ! r ! c = 0"
        by (auto simp: cell_def split: if_splits)
      then have "0 \<in> set (g ! r)" by (metis nth_mem)
      with assms \<open>r < length g\<close> show False by (metis nth_mem)
    qed
  qed
  then show ?thesis by (simp add: solvePuzzle.simps)
qed

theorem solvePuzzle_full_grid_witness:
  "solvePuzzle allOnes = Inr (True, allOnes) \<and> \<not> validSolution 4 allOnes"
proof -
  have full: "\<forall>row \<in> set allOnes. 0 \<notin> set row"
    by (simp add: allOnes_def)
  have bad: "\<not> validSolution 4 allOnes"
    by code_simp
  from solvePuzzle_full_grid [OF full] full bad show ?thesis by blast
qed

end
